theory Spec2Isabelle
  imports Main
begin

section \<open>Strings as the patch code uses them\<close>

text \<open>
  A patch is a Python \<open>str\<close>; it is modelled as a \<open>string\<close> (a list of characters).
  The model's alphabet is the 256 characters of \<open>char\<close>; on these the regular
  expression class \<open>\\d\<close> is exactly the ten ASCII digits. Python's \<open>int\<close> is unbounded
  and is modelled by \<open>nat\<close> (the header fields are digit strings, never signed).
\<close>

definition LF :: char where
  "LF = CHR 0x0A"

definition CR :: char where
  "CR = CHR 0x0D"

definition SQ :: char where
  "SQ = CHR 0x27"

text \<open>\<open>s.startswith(p)\<close>\<close>

fun str_startswith :: "string \<Rightarrow> string \<Rightarrow> bool" where
  "str_startswith s [] = True"
| "str_startswith [] (p # ps) = False"
| "str_startswith (c # s) (p # ps) = (c = p \<and> str_startswith s ps)"

text \<open>\<open>s.endswith(p)\<close>\<close>

definition str_endswith :: "string \<Rightarrow> string \<Rightarrow> bool" where
  "str_endswith s p = str_startswith (rev s) (rev p)"

text \<open>\<open>p in s\<close>: \<open>p\<close> occurs in \<open>s\<close> as a contiguous substring.\<close>

fun str_contains :: "string \<Rightarrow> string \<Rightarrow> bool" where
  "str_contains p [] = (p = [])"
| "str_contains p (c # s) = (str_startswith (c # s) p \<or> str_contains p s)"

text \<open>
  \<open>s.replace('\\r\\n', '\\n')\<close>: one left-to-right pass over the non-overlapping
  occurrences; the text after a replaced occurrence is scanned from behind it.
\<close>

fun str_replace_crlf :: "string \<Rightarrow> string" where
  "str_replace_crlf [] = []"
| "str_replace_crlf [c] = [c]"
| "str_replace_crlf (c # d # s) =
     (if c = CR \<and> d = LF then LF # str_replace_crlf s
      else c # str_replace_crlf (d # s))"

text \<open>\<open>s.split('\\n')\<close>: never empty; \<open>''\<close> splits to \<open>['']\<close>.\<close>

fun str_split_lf :: "string \<Rightarrow> string list" where
  "str_split_lf [] = [[]]"
| "str_split_lf (c # s) =
     (if c = LF then [] # str_split_lf s
      else (case str_split_lf s of [] \<Rightarrow> [[c]] | l # ls \<Rightarrow> (c # l) # ls))"

text \<open>\<open>'\\n'.join(ls)\<close>\<close>

fun str_join_lf :: "string list \<Rightarrow> string" where
  "str_join_lf [] = []"
| "str_join_lf [l] = l"
| "str_join_lf (l # m # ls) = l @ LF # str_join_lf (m # ls)"

section \<open>\<open>PatchValidator.validate_patch\<close>\<close>

record validation_result =
  valid :: bool
  issues :: "string list"
  has_diff_header :: bool
  has_hunks :: bool

definition issue_missing_header :: string where
  "issue_missing_header = ''Missing '' @ [SQ] @ ''diff --git'' @ [SQ] @ '' header''"

definition issue_missing_markers :: string where
  "issue_missing_markers = ''Missing file markers (--- / +++)''"

definition issue_no_hunks :: string where
  "issue_no_hunks = ''No hunks found (missing @@)''"

definition issue_crlf :: string where
  "issue_crlf = ''Contains CRLF line endings (should be LF)''"

text \<open>
  The four checks run one after the other, none depending on another; each appends
  its message to \<open>issues\<close>.
\<close>

definition validate_patch :: "string \<Rightarrow> validation_result" where
  "validate_patch patch =
     (let issues0 = [];
          has_diff_header = str_startswith patch ''diff --git'';
          issues1 = (if \<not> has_diff_header then issues0 @ [issue_missing_header] else issues0);
          has_file_markers = (str_contains ''---'' patch \<and> str_contains ''+++'' patch);
          issues2 = (if \<not> has_file_markers then issues1 @ [issue_missing_markers] else issues1);
          has_hunks = str_contains ''@@'' patch;
          issues3 = (if \<not> has_hunks then issues2 @ [issue_no_hunks] else issues2);
          has_crlf = str_contains [CR, LF] patch;
          issues4 = (if has_crlf then issues3 @ [issue_crlf] else issues3)
      in \<lparr>valid = (length issues4 = 0), issues = issues4,
          has_diff_header = has_diff_header, has_hunks = has_hunks\<rparr>)"

text \<open>The patch of the spec's second concrete scenario.\<close>

definition scenario_no_header :: string where
  "scenario_no_header =
     ''--- a/f'' @ [LF] @ ''+++ b/f'' @ [LF] @ ''@@ -1,1 +1,1 @@'' @ [LF] @ ''-a'' @ [LF] @ ''+b''"

section \<open>\<open>PatchValidator.repair_patch\<close>\<close>

subsection \<open>The hunk header pattern\<close>

definition is_digit :: "char \<Rightarrow> bool" where
  "is_digit c = (let n = (of_char c :: nat) in 48 \<le> n \<and> n \<le> 57)"

text \<open>Consume a literal piece of the pattern: the rest of the text, if it starts with it.\<close>

fun strip_literal :: "string \<Rightarrow> string \<Rightarrow> string option" where
  "strip_literal [] s = Some s"
| "strip_literal (p # ps) [] = None"
| "strip_literal (p # ps) (c # s) = (if c = p then strip_literal ps s else None)"

text \<open>The piece \<open>,?\<close> of the pattern.\<close>

fun strip_opt_comma :: "string \<Rightarrow> string" where
  "strip_opt_comma [] = []"
| "strip_opt_comma (c # s) = (if c = CHR '','' then s else c # s)"

text \<open>
  \<open>re.match(r'@@ -(\\d+),?(\\d*) \\+(\\d+),?(\\d*) @@', line)\<close>: the groups 1 to 4 and the
  text behind the match, or \<open>None\<close>. The pattern is anchored at the start only. Each
  digit group is followed in the pattern by something that is not a digit, so the
  backtracking matcher succeeds exactly when the greedy reading does, and with the
  greedy groups: group 1 and group 3 are the whole runs of digits.
\<close>

definition match_hunk_header :: "string \<Rightarrow> (string \<times> string \<times> string \<times> string \<times> string) option" where
  "match_hunk_header line =
     (case strip_literal ''@@ -'' line of
        None \<Rightarrow> None
      | Some r1 \<Rightarrow>
          (let g1 = takeWhile is_digit r1;
               r2 = strip_opt_comma (dropWhile is_digit r1);
               g2 = takeWhile is_digit r2
           in if g1 = [] then None
              else (case strip_literal '' +'' (dropWhile is_digit r2) of
                 None \<Rightarrow> None
               | Some r3 \<Rightarrow>
                   (let g3 = takeWhile is_digit r3;
                        r4 = strip_opt_comma (dropWhile is_digit r3);
                        g4 = takeWhile is_digit r4
                    in if g3 = [] then None
                       else (case strip_literal '' @@'' (dropWhile is_digit r4) of
                          None \<Rightarrow> None
                        | Some r5 \<Rightarrow> Some (g1, g2, g3, g4, r5))))))"

text \<open>
  The texts the pattern matches at their start, read off the pattern piece by piece:
  \<open>d1\<close> to \<open>d4\<close> are the digit groups, \<open>c1\<close> and \<open>c2\<close> the optional commas.
\<close>

definition in_header_language :: "string \<Rightarrow> bool" where
  "in_header_language line =
     (\<exists>d1 c1 d2 d3 c2 d4 rest.
        line = ''@@ -'' @ d1 @ c1 @ d2 @ '' +'' @ d3 @ c2 @ d4 @ '' @@'' @ rest \<and>
        d1 \<noteq> [] \<and> d3 \<noteq> [] \<and>
        list_all is_digit d1 \<and> list_all is_digit d2 \<and>
        list_all is_digit d3 \<and> list_all is_digit d4 \<and>
        (c1 = [] \<or> c1 = '','') \<and> (c2 = [] \<or> c2 = '',''))"

text \<open>
  \<open>int(s)\<close> on a string of digits, and \<open>str(n)\<close> as the f-string formats a number.
  The interpreter's limit on the length of a digit string it converts (4300 digits by
  default in recent versions) is not modelled.
\<close>

definition int_of_digits :: "string \<Rightarrow> nat" where
  "int_of_digits ds = foldl (\<lambda>a c. 10 * a + (of_char c - 48)) 0 ds"

definition digit_char :: "nat \<Rightarrow> char" where
  "digit_char n = char_of (48 + n)"

fun str_of_nat :: "nat \<Rightarrow> string" where
  "str_of_nat n =
     (if n < 10 then [digit_char n] else str_of_nat (n div 10) @ [digit_char (n mod 10)])"

declare str_of_nat.simps [simp del]

subsection \<open>\<open>PatchValidator._repair_hunk\<close>\<close>

text \<open>
  One round of the counting loop: the pair is \<open>(old_count, new_count)\<close>. An empty line
  is skipped; otherwise the first character decides.
\<close>

fun count_line :: "nat \<times> nat \<Rightarrow> string \<Rightarrow> nat \<times> nat" where
  "count_line (old_count, new_count) [] = (old_count, new_count)"
| "count_line (old_count, new_count) (first_char # _) =
     (if first_char = CHR ''-'' then (old_count + 1, new_count)
      else if first_char = CHR ''+'' then (old_count, new_count + 1)
      else if first_char = CHR '' '' then (old_count + 1, new_count + 1)
      else (old_count, new_count))"

definition count_lines :: "string list \<Rightarrow> nat \<times> nat" where
  "count_lines body_lines = foldl count_line (0, 0) body_lines"

text \<open>
  The second pattern ends in \<open>(.*)\<close>, which takes the text behind \<open> @@\<close> up to the first
  line feed (there is none in a line that \<open>split\<close> produced).
\<close>

definition repair_hunk :: "string list \<Rightarrow> string list" where
  "repair_hunk hunk_lines =
     (case hunk_lines of
        [] \<Rightarrow> hunk_lines
      | header # body_lines \<Rightarrow>
          (case match_hunk_header header of
             None \<Rightarrow> hunk_lines
           | Some (g1, g2, g3, g4, r5) \<Rightarrow>
               (let old_start = int_of_digits g1;
                    new_start = int_of_digits g3;
                    context = takeWhile (\<lambda>c. c \<noteq> LF) r5;
                    (old_count, new_count) = count_lines body_lines;
                    new_header = ''@@ -'' @ str_of_nat old_start @ '','' @ str_of_nat old_count
                       @ '' +'' @ str_of_nat new_start @ '','' @ str_of_nat new_count
                       @ '' @@'' @ context;
                    cleaned_body = filter (\<lambda>line. line \<noteq> '' '') body_lines
                in new_header # cleaned_body)))"

subsection \<open>The scan over the lines\<close>

text \<open>The inner loop runs while the line starts neither with \<open>@@\<close> nor with \<open>diff --git\<close>.\<close>

definition in_hunk_body :: "string \<Rightarrow> bool" where
  "in_hunk_body line = (\<not> str_startswith line ''@@'' \<and> \<not> str_startswith line ''diff --git'')"

text \<open>
  The outer \<open>while i < len(lines)\<close> loop, on the lines from index \<open>i\<close> on; the result is
  what the loop appends to \<open>repaired_lines\<close>.
\<close>

function repair_lines :: "string list \<Rightarrow> string list" where
  "repair_lines [] = []"
| "repair_lines (line # rest) =
     (if \<not> str_startswith line ''@@'' then line # repair_lines rest
      else if match_hunk_header line = None then line # repair_lines rest
      else repair_hunk (line # takeWhile in_hunk_body rest)
             @ repair_lines (dropWhile in_hunk_body rest))"
  by pat_completeness auto
termination
  by (relation "measure length") (auto intro: le_imp_less_Suc length_dropWhile_le)

declare repair_lines.simps(2) [simp del]

definition repair_patch :: "string \<Rightarrow> string" where
  "repair_patch patch =
     (let patch1 = str_replace_crlf patch;
          patch2 = (if \<not> str_endswith patch1 [LF] then patch1 @ [LF] else patch1);
          lines = str_split_lf patch2
      in str_join_lf (repair_lines lines))"

subsection \<open>Reading a repaired patch\<close>

text \<open>
  The counts a hunk header declares: groups 2 and 4 of the header pattern, read as
  numbers.
\<close>

definition declared_counts :: "string \<Rightarrow> (nat \<times> nat) option" where
  "declared_counts header =
     (case match_hunk_header header of
        None \<Rightarrow> None
      | Some (g1, g2, g3, g4, r5) \<Rightarrow> Some (int_of_digits g2, int_of_digits g4))"

text \<open>A list of lines whose last line is empty: what \<open>split\<close> gives for a text ending in a line feed.\<close>

definition ends_blank :: "string list \<Rightarrow> bool" where
  "ends_blank ls = (ls \<noteq> [] \<and> last ls = [])"

text \<open>Exactly one trailing line feed: one at the end, none right before it.\<close>

definition ends_with_one_lf :: "string \<Rightarrow> bool" where
  "ends_with_one_lf s = (str_endswith s [LF] \<and> \<not> str_endswith s [LF, LF])"

text \<open>
  A hunk whose second body line is the context line of a blank source line (a single
  space), with the right counts in its header.
\<close>

definition patch_blank_context :: string where
  "patch_blank_context =
     ''@@ -1,3 +1,3 @@'' @ [LF] @ '' a'' @ [LF] @ '' '' @ [LF] @ ''-b'' @ [LF] @ ''+c'' @ [LF]"

text \<open>An added line that ends in carriage return, carriage return, line feed.\<close>

definition patch_cr_crlf :: string where
  "patch_cr_crlf = ''+x'' @ [CR, CR, LF]"

text \<open>A text that already ends in two line feeds.\<close>

definition patch_two_lf :: string where
  "patch_two_lf = ''+x'' @ [LF, LF]"

section \<open>\<open>RepositoryManager\<close>\<close>

subsection \<open>Paths\<close>

text \<open>\<open>repo.replace('/', '_')\<close>\<close>

definition str_replace_slash :: "string \<Rightarrow> string" where
  "str_replace_slash s = map (\<lambda>c. if c = CHR ''/'' then CHR ''_'' else c) s"

text \<open>
  One round of the loop of \<open>os.path.join\<close> (POSIX): a component that starts with a
  slash replaces the path so far; otherwise it is appended, behind a slash unless the
  path so far is empty or ends with one.
\<close>

definition path_join :: "string \<Rightarrow> string \<Rightarrow> string" where
  "path_join path b =
     (if str_startswith b ''/'' then b
      else if path = [] \<or> str_endswith path ''/'' then path @ b
      else path @ ''/'' @ b)"

text \<open>
  \<open>os.path.dirname\<close> (POSIX): the text up to the last slash, without its trailing
  slashes unless it consists of slashes only.
\<close>

definition path_dirname :: "string \<Rightarrow> string" where
  "path_dirname p =
     (let head = rev (dropWhile (\<lambda>c. c \<noteq> CHR ''/'') (rev p))
      in if head \<noteq> [] \<and> \<not> list_all (\<lambda>c. c = CHR ''/'') head
         then rev (dropWhile (\<lambda>c. c = CHR ''/'') (rev head))
         else head)"

text \<open>\<open>os.path.join(self.cache_dir, repo_dir_name, base_commit[:8])\<close>\<close>

definition repo_path_of :: "string \<Rightarrow> string \<Rightarrow> string \<Rightarrow> string" where
  "repo_path_of cache_dir repo base_commit =
     (let repo_dir_name = str_replace_slash repo
      in path_join (path_join cache_dir repo_dir_name) (take 8 base_commit))"

subsection \<open>The file system and git, as the manager sees them\<close>

text \<open>
  A command is the argument vector handed to \<open>subprocess.run\<close> and its working
  directory. The exceptions are those the three methods can meet: a non-zero exit under
  \<open>check=True\<close>, an expired timeout, and a working directory that does not exist.
\<close>

type_synonym command = "string list \<times> string option"

datatype py_error =
    CalledProcessError "string list" int string
  | TimeoutExpired "string list"
  | OSError

text \<open>
  The world: what is found at each path that exists (\<open>os.path.exists\<close> holds where
  \<open>slots\<close> is defined; \<open>'t\<close> is the content of a working tree), the temporary files with
  their text, and the commands run so far.
\<close>

record 't world =
  slots :: "string \<rightharpoonup> 't"
  tmpfiles :: "string \<rightharpoonup> string"
  trace :: "command list"

text \<open>
  What a \<open>git clone\<close> can answer: exit status 0, with the working tree it made; a
  non-zero exit status with its diagnostic; or no answer within the timeout, when the
  process is killed. In the last two cases the outcome says what is left at the target
  path (\<open>None\<close>: nothing).
\<close>

datatype 't cloned =
    Clone_ok 't
  | Clone_failed int string "'t option"
  | Clone_timeout "'t option"

text \<open>
  The environment answers each command the manager runs. A command other than a clone
  gives its exit status, its diagnostic output and the working tree it leaves;
  \<open>git apply --check\<close> only reads the tree. \<open>makedirs\<close> is \<open>os.makedirs\<close> with
  \<open>exist_ok=True\<close> (\<open>None\<close>: it raises), \<open>mkstemp\<close> the name that
  \<open>tempfile.NamedTemporaryFile\<close> chooses.
\<close>

record 't env =
  clone_shallow :: "string \<Rightarrow> 't cloned"
  clone_full :: "string \<Rightarrow> 't option \<Rightarrow> 't cloned"
  checkout :: "'t \<Rightarrow> string \<Rightarrow> int \<times> string \<times> 't"
  fetch_deep :: "'t \<Rightarrow> int \<times> string \<times> 't"
  apply_check :: "'t \<Rightarrow> string \<Rightarrow> int \<times> string"
  apply_write :: "'t \<Rightarrow> string \<Rightarrow> int \<times> string \<times> 't"
  reset_hard :: "'t \<Rightarrow> int \<times> string \<times> 't"
  clean_fdx :: "'t \<Rightarrow> int \<times> string \<times> 't"
  makedirs :: "(string \<rightharpoonup> 't) \<Rightarrow> string \<Rightarrow> (string \<rightharpoonup> 't) option"
  mkstemp :: "(string \<rightharpoonup> string) \<Rightarrow> string"

definition logged :: "command \<Rightarrow> 't world \<Rightarrow> 't world" where
  "logged cmd w = w\<lparr>trace := trace w @ [cmd]\<rparr>"

definition put_slot :: "string \<Rightarrow> 't option \<Rightarrow> 't world \<Rightarrow> 't world" where
  "put_slot path x w = w\<lparr>slots := (slots w)(path := x)\<rparr>"

subsection \<open>\<open>RepositoryManager.get_repo\<close>\<close>

definition clone_shallow_argv :: "string \<Rightarrow> string \<Rightarrow> string list" where
  "clone_shallow_argv repo_url repo_path = [''git'', ''clone'', ''--depth'', ''1'', repo_url, repo_path]"

definition clone_full_argv :: "string \<Rightarrow> string \<Rightarrow> string list" where
  "clone_full_argv repo_url repo_path = [''git'', ''clone'', repo_url, repo_path]"

definition checkout_argv :: "string \<Rightarrow> string list" where
  "checkout_argv base_commit = [''git'', ''checkout'', base_commit]"

definition fetch_argv :: "string list" where
  "fetch_argv = [''git'', ''fetch'', ''--depth'', ''1000'']"

text \<open>\<open>f"https://github.com/{repo}.git"\<close>\<close>

definition repo_url_of :: "string \<Rightarrow> string" where
  "repo_url_of repo = ''https://github.com/'' @ repo @ ''.git''"

text \<open>
  The first \<open>try\<close>: the shallow clone, and the full clone when the shallow one timed
  out. A non-zero exit of the shallow clone is not caught; neither is any failure of
  the full clone.
\<close>

definition clone_repo :: "'t env \<Rightarrow> string \<Rightarrow> string \<Rightarrow> 't world \<Rightarrow> (py_error + unit) \<times> 't world" where
  "clone_repo e repo_url repo_path w =
     (let cmd1 = clone_shallow_argv repo_url repo_path;
          w1 = logged (cmd1, None) w
      in case clone_shallow e repo_url of
           Clone_ok t \<Rightarrow> (Inr (), put_slot repo_path (Some t) w1)
         | Clone_failed rc err left \<Rightarrow>
             (Inl (CalledProcessError cmd1 rc err), put_slot repo_path left w1)
         | Clone_timeout left \<Rightarrow>
             (let cmd2 = clone_full_argv repo_url repo_path;
                  w2 = logged (cmd2, None) (put_slot repo_path left w1)
              in case clone_full e repo_url left of
                   Clone_ok t \<Rightarrow> (Inr (), put_slot repo_path (Some t) w2)
                 | Clone_failed rc err left2 \<Rightarrow>
                     (Inl (CalledProcessError cmd2 rc err), put_slot repo_path left2 w2)
                 | Clone_timeout left2 \<Rightarrow>
                     (Inl (TimeoutExpired cmd2), put_slot repo_path left2 w2)))"

text \<open>
  The second \<open>try\<close>: the checkout, and after a non-zero exit the deeper fetch and the
  checkout again, neither of them caught.
\<close>

definition checkout_commit :: "'t env \<Rightarrow> string \<Rightarrow> string \<Rightarrow> 't world \<Rightarrow> (py_error + unit) \<times> 't world" where
  "checkout_commit e repo_path base_commit w =
     (case slots w repo_path of
        None \<Rightarrow> (Inl OSError, w)
      | Some t \<Rightarrow>
          (let cmd = checkout_argv base_commit;
               (rc1, err1, t1) = checkout e t base_commit;
               w1 = put_slot repo_path (Some t1) (logged (cmd, Some repo_path) w)
           in if rc1 = 0 then (Inr (), w1)
              else
                (let (rc2, err2, t2) = fetch_deep e t1;
                     w2 = put_slot repo_path (Some t2) (logged (fetch_argv, Some repo_path) w1)
                 in if rc2 \<noteq> 0 then (Inl (CalledProcessError fetch_argv rc2 err2), w2)
                    else
                      (let (rc3, err3, t3) = checkout e t2 base_commit;
                           w3 = put_slot repo_path (Some t3) (logged (cmd, Some repo_path) w2)
                       in if rc3 \<noteq> 0 then (Inl (CalledProcessError cmd rc3 err3), w3)
                          else (Inr (), w3)))))"

definition get_repo :: "'t env \<Rightarrow> string \<Rightarrow> string \<Rightarrow> string \<Rightarrow> 't world \<Rightarrow> (py_error + string) \<times> 't world" where
  "get_repo e cache_dir repo base_commit w =
     (let repo_path = repo_path_of cache_dir repo base_commit
      in if slots w repo_path \<noteq> None then (Inr repo_path, w)
         else
           (case makedirs e (slots w) (path_dirname repo_path) of
              None \<Rightarrow> (Inl OSError, w)
            | Some fs \<Rightarrow>
                (let w0 = w\<lparr>slots := fs\<rparr>;
                     repo_url = repo_url_of repo
                 in case clone_repo e repo_url repo_path w0 of
                      (Inl err, w1) \<Rightarrow> (Inl err, w1)
                    | (Inr _, w1) \<Rightarrow>
                        (case checkout_commit e repo_path base_commit w1 of
                           (Inl err, w2) \<Rightarrow> (Inl err, w2)
                         | (Inr _, w2) \<Rightarrow> (Inr repo_path, w2)))))"

subsection \<open>\<open>RepositoryManager.apply_patch\<close>\<close>

record apply_result =
  success :: bool
  error :: "string option"

definition apply_check_argv :: "string \<Rightarrow> string list" where
  "apply_check_argv patch_file = [''git'', ''apply'', ''--check'', patch_file]"

definition apply_argv :: "string \<Rightarrow> string list" where
  "apply_argv patch_file = [''git'', ''apply'', patch_file]"

text \<open>
  The \<open>try\<close> block with its \<open>except\<close> clause. git reads the patch from the temporary
  file, which holds the text \<open>patch\<close>. The dry run has no \<open>check=True\<close>: its exit
  status is inspected. The real run has: its non-zero exit raises
  \<open>CalledProcessError\<close>, which the \<open>except\<close> clause turns into a result.
\<close>

definition apply_patch_try :: "'t env \<Rightarrow> string \<Rightarrow> string \<Rightarrow> string \<Rightarrow> 't world \<Rightarrow> (py_error + apply_result) \<times> 't world" where
  "apply_patch_try e repo_path patch_file patch w =
     (case slots w repo_path of
        None \<Rightarrow> (Inl OSError, w)
      | Some t \<Rightarrow>
          (let (returncode, stderr) = apply_check e t patch;
               w1 = logged (apply_check_argv patch_file, Some repo_path) w
           in if returncode = 0 then
                (let (rc2, err2, t2) = apply_write e t patch;
                     w2 = put_slot repo_path (Some t2) (logged (apply_argv patch_file, Some repo_path) w1)
                 in if rc2 = 0 then (Inr \<lparr>success = True, error = None\<rparr>, w2)
                    else (Inr \<lparr>success = False, error = Some err2\<rparr>, w2))
              else (Inr \<lparr>success = False, error = Some stderr\<rparr>, w1)))"

text \<open>
  The whole method: the patch is written to a new temporary file, the \<open>try\<close> block
  runs, and the \<open>finally\<close> clause removes the file on every way out.
\<close>

definition apply_patch :: "'t env \<Rightarrow> string \<Rightarrow> string \<Rightarrow> 't world \<Rightarrow> (py_error + apply_result) \<times> 't world" where
  "apply_patch e repo_path patch w =
     (let patch_file = mkstemp e (tmpfiles w);
          w1 = w\<lparr>tmpfiles := (tmpfiles w)(patch_file \<mapsto> patch)\<rparr>;
          (res, w2) = apply_patch_try e repo_path patch_file patch w1
      in (res, w2\<lparr>tmpfiles := (tmpfiles w2)(patch_file := None)\<rparr>))"

subsection \<open>\<open>RepositoryManager.reset_repo\<close>\<close>

definition reset_argv :: "string list" where
  "reset_argv = [''git'', ''reset'', ''--hard'', ''HEAD'']"

definition clean_argv :: "string list" where
  "clean_argv = [''git'', ''clean'', ''-fdx'']"

definition reset_repo :: "'t env \<Rightarrow> string \<Rightarrow> 't world \<Rightarrow> (py_error + unit) \<times> 't world" where
  "reset_repo e repo_path w =
     (case slots w repo_path of
        None \<Rightarrow> (Inl OSError, w)
      | Some t \<Rightarrow>
          (let (rc1, err1, t1) = reset_hard e t;
               w1 = put_slot repo_path (Some t1) (logged (reset_argv, Some repo_path) w)
           in if rc1 \<noteq> 0 then (Inl (CalledProcessError reset_argv rc1 err1), w1)
              else
                (let (rc2, err2, t2) = clean_fdx e t1;
                     w2 = put_slot repo_path (Some t2) (logged (clean_argv, Some repo_path) w1)
                 in if rc2 \<noteq> 0 then (Inl (CalledProcessError clean_argv rc2 err2), w2)
                    else (Inr (), w2))))"

subsection \<open>A small environment to run the manager in\<close>

text \<open>
  A working tree is described by the revision checked out and the list of changes
  made to its files since. In \<open>demo_env\<close> both clones succeed and give the tip of the
  default branch; a checkout succeeds for every revision but \<open>known_missing\<close>; a patch
  passes the dry run unless it is empty; the real application writes the patch's
  changes, and for the patch \<open>patch_half\<close> it writes a first file and then fails.
\<close>

record tree =
  revision :: string
  changes :: "string list"

definition known_missing :: string where
  "known_missing = ''deadbeefdeadbeefdeadbeefdeadbeefdeadbeef''"

definition patch_half :: string where
  "patch_half = ''diff --git a/f b/f'' @ [LF] @ ''diff --git a/locked b/locked'' @ [LF]"

definition demo_env :: "tree env" where
  "demo_env =
     \<lparr>clone_shallow = (\<lambda>url. Clone_ok \<lparr>revision = ''HEAD'', changes = []\<rparr>),
      clone_full = (\<lambda>url left. Clone_ok \<lparr>revision = ''HEAD'', changes = []\<rparr>),
      checkout = (\<lambda>t c. if c = known_missing
                          then (128, ''fatal: reference is not a tree'', t)
                          else (0, [], t\<lparr>revision := c\<rparr>)),
      fetch_deep = (\<lambda>t. (0, [], t)),
      apply_check = (\<lambda>t p. if p = [] then (128, ''error: No valid patches in input'') else (0, [])),
      apply_write = (\<lambda>t p. if p = patch_half
                             then (1, ''error: unable to write file locked'', t\<lparr>changes := changes t @ [''f'']\<rparr>)
                             else (0, [], t\<lparr>changes := changes t @ [p]\<rparr>)),
      reset_hard = (\<lambda>t. (0, [], t\<lparr>changes := []\<rparr>)),
      clean_fdx = (\<lambda>t. (0, [], t)),
      makedirs = (\<lambda>fs d. Some fs),
      mkstemp = (\<lambda>fs. ''/tmp/tmp0.patch'')\<rparr>"

definition empty_world :: "tree world" where
  "empty_world = \<lparr>slots = Map.empty, tmpfiles = Map.empty, trace = []\<rparr>"

definition demo_commit :: string where
  "demo_commit = ''7fd1a60b01f91b314f59955a4e4d4e80d8edf11d''"

text \<open>Another revision, with the same first eight characters.\<close>

definition demo_commit2 :: string where
  "demo_commit2 = ''7fd1a60b5c2ea3b0d9f8e7a6b5c4d3e2f1a0b9c8''"

definition demo_path :: string where
  "demo_path = ''/cache/octocat_Hello-World/7fd1a60b''"

definition demo_world :: "tree world" where
  "demo_world =
     \<lparr>slots = [demo_path \<mapsto> \<lparr>revision = demo_commit, changes = []\<rparr>],
      tmpfiles = Map.empty, trace = []\<rparr>"

text \<open>
  The calls the statements below run: a first \<open>get_repo\<close> into the empty cache, for a
  revision that exists and for one that does not, and the call that follows each.
\<close>

definition first_call :: "(py_error + string) \<times> tree world" where
  "first_call = get_repo demo_env ''/cache'' ''octocat/Hello-World'' demo_commit empty_world"

definition failed_call :: "(py_error + string) \<times> tree world" where
  "failed_call = get_repo demo_env ''/cache'' ''octocat/Hello-World'' known_missing empty_world"

definition retry_call :: "(py_error + string) \<times> tree world" where
  "retry_call = get_repo demo_env ''/cache'' ''octocat/Hello-World'' known_missing (snd failed_call)"

definition half_applied :: "(py_error + apply_result) \<times> tree world" where
  "half_applied = apply_patch demo_env demo_path patch_half demo_world"

section \<open>Properties of \<open>validate_patch\<close>\<close>

lemma validate_patch_issues:
  "issues (validate_patch d) =
     (if str_startswith d ''diff --git'' then [] else [issue_missing_header]) @
     (if str_contains ''---'' d \<and> str_contains ''+++'' d then [] else [issue_missing_markers]) @
     (if str_contains ''@@'' d then [] else [issue_no_hunks]) @
     (if str_contains [CR, LF] d then [issue_crlf] else [])"
  by (simp add: validate_patch_def Let_def)

lemma validate_patch_valid: "valid (validate_patch d) = (issues (validate_patch d) = [])"
  by (simp add: validate_patch_def Let_def)

lemma validate_patch_flags:
  "has_diff_header (validate_patch d) = str_startswith d ''diff --git'' \<and>
   has_hunks (validate_patch d) = str_contains ''@@'' d"
  by (simp add: validate_patch_def Let_def)

lemma validate_scenario_no_header:
  "validate_patch scenario_no_header =
     \<lparr>valid = False, issues = [issue_missing_header], has_diff_header = False, has_hunks = True\<rparr>"
  by (simp add: validate_patch_def scenario_no_header_def Let_def LF_def CR_def)

lemma validate_empty:
  "validate_patch [] =
     \<lparr>valid = False, issues = [issue_missing_header, issue_missing_markers, issue_no_hunks],
      has_diff_header = False, has_hunks = False\<rparr>"
  by (simp add: validate_patch_def Let_def)

text \<open>
  Claim C7. \<open>validate_patch\<close> is a function of the text alone and gives a result for
  every text, the empty one included. The issues are those of the four checks, each
  decided on the text by itself and listed in the order of the checks; \<open>valid\<close> holds
  exactly when there is no issue. On the patch
  \<open>--- a/f\<newline>+++ b/f\<newline>@@ -1,1 +1,1 @@\<newline>-a\<newline>+b\<close> the result is not valid and its one
  issue is the missing \<open>diff --git\<close> header.
\<close>

theorem validate_patch_total:
  "valid (validate_patch d) = (issues (validate_patch d) = []) \<and>
   issues (validate_patch d) =
     (if str_startswith d ''diff --git'' then [] else [issue_missing_header]) @
     (if str_contains ''---'' d \<and> str_contains ''+++'' d then [] else [issue_missing_markers]) @
     (if str_contains ''@@'' d then [] else [issue_no_hunks]) @
     (if str_contains [CR, LF] d then [issue_crlf] else []) \<and>
   valid (validate_patch []) = False \<and>
   validate_patch scenario_no_header =
     \<lparr>valid = False, issues = [issue_missing_header], has_diff_header = False, has_hunks = True\<rparr>"
  using validate_patch_issues [of d] validate_patch_valid [of d]
    validate_scenario_no_header validate_empty
  by simp

section \<open>Properties of \<open>repair_patch\<close>\<close>

subsection \<open>Splitting and joining\<close>

lemma str_endswith_LF: "str_endswith s [LF] = (s \<noteq> [] \<and> last s = LF)"
proof (cases s rule: rev_cases)
  case Nil
  then show ?thesis by (simp add: str_endswith_def)
next
  case (snoc ys y)
  then show ?thesis by (auto simp: str_endswith_def)
qed

lemma str_split_lf_not_Nil: "str_split_lf s \<noteq> []"
  by (induction s) (auto split: list.splits)

lemma str_split_lf_snoc: "str_split_lf (s @ [LF]) = str_split_lf s @ [[]]"
  by (induction s) (auto simp: str_split_lf_not_Nil split: list.splits)

lemma str_join_lf_snoc: "ls \<noteq> [] \<Longrightarrow> str_join_lf (ls @ [[]]) = str_join_lf ls @ [LF]"
  by (induction ls rule: str_join_lf.induct) auto

lemma filter_keep_last:
  "xs \<noteq> [] \<Longrightarrow> Q (last xs) \<Longrightarrow> filter Q xs \<noteq> [] \<and> last (filter Q xs) = last xs"
proof (induction xs)
  case Nil
  then show ?case by simp
next
  case (Cons x xs)
  show ?case
  proof (cases "xs = []")
    case True
    with Cons.prems show ?thesis by simp
  next
    case False
    with Cons show ?thesis by simp
  qed
qed

lemma last_dropWhile: "dropWhile Q xs \<noteq> [] \<Longrightarrow> last (dropWhile Q xs) = last xs"
  by (induction xs) (auto split: if_splits)

subsection \<open>The scan keeps the last, empty line\<close>

lemma repair_hunk_matched:
  "match_hunk_header h \<noteq> None \<Longrightarrow>
     \<exists>nh. repair_hunk (h # body) = nh # filter (\<lambda>line. line \<noteq> '' '') body"
  by (auto simp: repair_hunk_def Let_def split: prod.splits)

lemma repair_lines_plain:
  "\<not> str_startswith line ''@@'' \<or> match_hunk_header line = None \<Longrightarrow>
     repair_lines (line # rest) = line # repair_lines rest"
  by (auto simp: repair_lines.simps(2))

lemma repair_lines_hunk:
  "str_startswith line ''@@'' \<Longrightarrow> match_hunk_header line \<noteq> None \<Longrightarrow>
     repair_lines (line # rest) =
       repair_hunk (line # takeWhile in_hunk_body rest) @ repair_lines (dropWhile in_hunk_body rest)"
  by (cases "match_hunk_header line") (simp_all add: repair_lines.simps(2))

lemma ends_blank_Cons: "ends_blank ls \<Longrightarrow> ends_blank (l # ls)"
  by (simp add: ends_blank_def)

lemma ends_blank_append: "ends_blank ls \<Longrightarrow> ends_blank (ks @ ls)"
  by (simp add: ends_blank_def)

lemma repair_lines_ends_blank: "ends_blank ls \<Longrightarrow> ends_blank (repair_lines ls)"
proof (induction ls rule: repair_lines.induct)
  case 1
  then show ?case by (simp add: ends_blank_def)
next
  case (2 line rest)
  show ?case
  proof (cases "\<not> str_startswith line ''@@'' \<or> match_hunk_header line = None")
    case True
    then have eq: "repair_lines (line # rest) = line # repair_lines rest"
      by (rule repair_lines_plain)
    show ?thesis
    proof (cases "rest = []")
      case True
      with "2.prems" eq show ?thesis by (simp add: ends_blank_def)
    next
      case False
      with "2.prems" have "ends_blank rest" by (simp add: ends_blank_def)
      with True "2.IH"(1,2) have "ends_blank (repair_lines rest)" by blast
      with eq show ?thesis by (simp add: ends_blank_Cons)
    qed
  next
    case False
    then have sw: "str_startswith line ''@@''" and m: "match_hunk_header line \<noteq> None"
      by auto
    from sw have "line \<noteq> []" by auto
    with "2.prems" have rest: "rest \<noteq> []" "last rest = []"
      by (auto simp: ends_blank_def split: if_splits)
    obtain nh where nh: "repair_hunk (line # takeWhile in_hunk_body rest)
        = nh # filter (\<lambda>l. l \<noteq> '' '') (takeWhile in_hunk_body rest)"
      using repair_hunk_matched [OF m] by blast
    have eq: "repair_lines (line # rest) =
        (nh # filter (\<lambda>l. l \<noteq> '' '') (takeWhile in_hunk_body rest))
          @ repair_lines (dropWhile in_hunk_body rest)"
      using repair_lines_hunk [OF sw m] nh by simp
    show ?thesis
    proof (cases "dropWhile in_hunk_body rest = []")
      case True
      have "takeWhile in_hunk_body rest @ dropWhile in_hunk_body rest = rest"
        by (rule takeWhile_dropWhile_id)
      with True have tw: "takeWhile in_hunk_body rest = rest" by simp
      have "filter (\<lambda>l. l \<noteq> '' '') rest \<noteq> [] \<and> last (filter (\<lambda>l. l \<noteq> '' '') rest) = last rest"
        using rest by (intro filter_keep_last) auto
      with rest have "ends_blank (filter (\<lambda>l. l \<noteq> '' '') rest)" by (simp add: ends_blank_def)
      then have "ends_blank (nh # filter (\<lambda>l. l \<noteq> '' '') rest)" by (rule ends_blank_Cons)
      with eq True tw show ?thesis by simp
    next
      case False
      then have "last (dropWhile in_hunk_body rest) = []"
        using rest(2) last_dropWhile [of in_hunk_body rest] by simp
      with False have "ends_blank (dropWhile in_hunk_body rest)" by (simp add: ends_blank_def)
      with sw m "2.IH"(3) have "ends_blank (repair_lines (dropWhile in_hunk_body rest))"
        by blast
      with eq show ?thesis by (simp only: ends_blank_append)
    qed
  qed
qed

lemma repair_lines_length:
  assumes eb: "ends_blank ls" and len: "2 \<le> length ls"
  shows "2 \<le> length (repair_lines ls)"
proof (cases ls)
  case Nil
  with len show ?thesis by simp
next
  case (Cons line rest)
  from len Cons have rne: "rest \<noteq> []" by auto
  with eb Cons have ebr: "ends_blank rest" by (simp add: ends_blank_def)
  show ?thesis
  proof (cases "\<not> str_startswith line ''@@'' \<or> match_hunk_header line = None")
    case True
    then have eq: "repair_lines (line # rest) = line # repair_lines rest"
      by (rule repair_lines_plain)
    from repair_lines_ends_blank [OF ebr] have "repair_lines rest \<noteq> []"
      by (simp add: ends_blank_def)
    then have "1 \<le> length (repair_lines rest)" by (cases "repair_lines rest") auto
    with eq Cons show ?thesis by simp
  next
    case False
    then have sw: "str_startswith line ''@@''" and m: "match_hunk_header line \<noteq> None"
      by auto
    obtain nh where nh: "repair_hunk (line # takeWhile in_hunk_body rest)
        = nh # filter (\<lambda>l. l \<noteq> '' '') (takeWhile in_hunk_body rest)"
      using repair_hunk_matched [OF m] by blast
    have eq: "repair_lines (line # rest) =
        (nh # filter (\<lambda>l. l \<noteq> '' '') (takeWhile in_hunk_body rest))
          @ repair_lines (dropWhile in_hunk_body rest)"
      using repair_lines_hunk [OF sw m] nh by simp
    from repair_lines_ends_blank [OF eb] Cons have "ends_blank (repair_lines (line # rest))"
      by simp
    then have l: "last (repair_lines (line # rest)) = []" by (simp add: ends_blank_def)
    have nhne: "nh \<noteq> []"
    proof
      assume "nh = []"
      with nh have "hd (repair_hunk (line # takeWhile in_hunk_body rest)) = []" by simp
      moreover have "hd (repair_hunk (line # takeWhile in_hunk_body rest)) \<noteq> []"
        using m by (auto simp: repair_hunk_def Let_def split: prod.splits)
      ultimately show False by simp
    qed
    show ?thesis
    proof (rule ccontr)
      assume "\<not> 2 \<le> length (repair_lines ls)"
      with eq Cons have "repair_lines (line # rest) = [nh]"
        by (cases "filter (\<lambda>l. l \<noteq> '' '') (takeWhile in_hunk_body rest)";
            cases "repair_lines (dropWhile in_hunk_body rest)") auto
      with l nhne show False by simp
    qed
  qed
qed

subsection \<open>The trailing line feed\<close>

lemma repair_patch_two_lf: "repair_patch patch_two_lf = ''+x'' @ [LF, LF]"
  by code_simp

text \<open>
  Claim C5, as stated, fails: a text that ends in two line feeds keeps both, so the
  result does not end in exactly one.
\<close>

theorem repair_patch_two_lf_counterexample:
  "\<not> ends_with_one_lf (repair_patch patch_two_lf)"
  by code_simp

lemma repair_patch_last_LF: "str_endswith (repair_patch d) [LF]"
proof -
  define p where "p = (if \<not> str_endswith (str_replace_crlf d) [LF]
                        then str_replace_crlf d @ [LF] else str_replace_crlf d)"
  have pe: "p \<noteq> [] \<and> last p = LF"
    by (auto simp: p_def str_endswith_LF)
  then have "p = butlast p @ [LF]" by (metis append_butlast_last_id)
  then obtain q where q: "p = q @ [LF]" ..
  have sp: "str_split_lf p = str_split_lf q @ [[]]"
    by (simp add: q str_split_lf_snoc)
  have ne: "str_split_lf q \<noteq> []" by (rule str_split_lf_not_Nil)
  have len: "2 \<le> length (str_split_lf p)" using sp ne by (cases "str_split_lf q") auto
  have eb: "ends_blank (str_split_lf p)" using sp by (simp add: ends_blank_def)
  define out where "out = repair_lines (str_split_lf p)"
  have o1: "ends_blank out" unfolding out_def using eb by (rule repair_lines_ends_blank)
  have o2: "2 \<le> length out" unfolding out_def using eb len by (rule repair_lines_length)
  from o1 have "out = butlast out @ [[]]"
    by (metis append_butlast_last_id ends_blank_def)
  moreover from o2 have "butlast out \<noteq> []" by (cases out rule: rev_cases) auto
  ultimately obtain ys where ys: "out = ys @ [[]]" "ys \<noteq> []" by blast
  have "repair_patch d = str_join_lf out"
    by (simp add: repair_patch_def p_def out_def Let_def)
  with ys show ?thesis by (simp add: str_join_lf_snoc str_endswith_LF)
qed

text \<open>
  Claim C5, amended. For every text \<open>d\<close>, \<open>repair_patch d\<close> ends with a line feed: one is
  added when the text, after the replacement of CRLF, does not end with one, and none
  is ever taken away.
\<close>

theorem repair_patch_ends_LF: "str_endswith (repair_patch d) [LF]"
  by (rule repair_patch_last_LF)

subsection \<open>The header pattern\<close>

text \<open>
  \<open>match_hunk_header\<close> accepts exactly the texts of the pattern's language, and its
  groups are runs of digits that make up the line as the pattern says.
\<close>

lemma strip_literal_Some: "strip_literal p s = Some r \<Longrightarrow> s = p @ r"
  by (induction p s rule: strip_literal.induct) (auto split: if_splits)

lemma strip_opt_comma_cases: "\<exists>c. (c = [] \<or> c = '','') \<and> x = c @ strip_opt_comma x"
  by (cases x) auto

lemma digit_segment:
  assumes "list_all is_digit d1" "d1 \<noteq> []" "list_all is_digit d2" "c = [] \<or> c = '',''"
  shows "takeWhile is_digit (d1 @ c @ d2 @ CHR '' '' # t) \<noteq> [] \<and>
         dropWhile is_digit (strip_opt_comma (dropWhile is_digit (d1 @ c @ d2 @ CHR '' '' # t)))
           = CHR '' '' # t"
proof -
  have nd: "\<not> is_digit CHR '' ''" "\<not> is_digit CHR '',''" by (simp_all add: is_digit_def)
  from assms(1) have a1: "\<forall>x \<in> set d1. is_digit x" by (simp add: list_all_iff)
  from assms(3) have a2: "\<forall>x \<in> set d2. is_digit x" by (simp add: list_all_iff)
  from assms(4) show ?thesis
  proof
    assume c: "c = []"
    from a1 a2 have a12: "\<forall>x \<in> set (d1 @ d2). is_digit x" by auto
    have "takeWhile is_digit ((d1 @ d2) @ CHR '' '' # t) = d1 @ d2"
      using a12 nd(1) by (simp only: takeWhile_append2) simp
    moreover have "dropWhile is_digit ((d1 @ d2) @ CHR '' '' # t) = CHR '' '' # t"
      using a12 nd(1) by (simp only: dropWhile_append2) simp
    ultimately show ?thesis using c assms(2) nd(1) by simp
  next
    assume c: "c = '',''"
    have "takeWhile is_digit (d1 @ CHR '','' # d2 @ CHR '' '' # t) = d1"
      using a1 nd(2) by (simp add: takeWhile_append2)
    moreover have "dropWhile is_digit (d1 @ CHR '','' # d2 @ CHR '' '' # t) = CHR '','' # d2 @ CHR '' '' # t"
      using a1 nd(2) by (simp add: dropWhile_append2)
    moreover have "dropWhile is_digit (d2 @ CHR '' '' # t) = CHR '' '' # t"
      using a2 nd(1) by (simp add: dropWhile_append2)
    ultimately show ?thesis using c assms(2) by simp
  qed
qed

lemma match_hunk_header_complete:
  assumes "in_header_language line"
  shows "match_hunk_header line \<noteq> None"
proof -
  from assms obtain d1 c1 d2 d3 c2 d4 rest where
    l: "line = ''@@ -'' @ d1 @ c1 @ d2 @ '' +'' @ d3 @ c2 @ d4 @ '' @@'' @ rest"
    and ne: "d1 \<noteq> []" "d3 \<noteq> []"
    and dg: "list_all is_digit d1" "list_all is_digit d2" "list_all is_digit d3" "list_all is_digit d4"
    and cs: "c1 = [] \<or> c1 = '',''" "c2 = [] \<or> c2 = '',''"
    unfolding in_header_language_def by blast
  define r3 where "r3 = d3 @ c2 @ d4 @ '' @@'' @ rest"
  define r1 where "r1 = d1 @ c1 @ d2 @ '' +'' @ r3"
  have s1: "strip_literal ''@@ -'' line = Some r1"
    unfolding l r1_def r3_def by simp
  have seg1: "takeWhile is_digit r1 \<noteq> [] \<and>
         dropWhile is_digit (strip_opt_comma (dropWhile is_digit r1)) = '' +'' @ r3"
    using digit_segment [OF dg(1) ne(1) dg(2) cs(1), of "CHR ''+'' # r3"] by (simp add: r1_def)
  have seg2: "takeWhile is_digit r3 \<noteq> [] \<and>
         dropWhile is_digit (strip_opt_comma (dropWhile is_digit r3)) = '' @@'' @ rest"
    using digit_segment [OF dg(3) ne(2) dg(4) cs(2), of "''@@'' @ rest"] by (simp add: r3_def)
  have s2: "strip_literal '' +'' ('' +'' @ r3) = Some r3" by simp
  have s3: "strip_literal '' @@'' ('' @@'' @ rest) = Some rest" by simp
  show ?thesis
    unfolding match_hunk_header_def s1 option.case Let_def
    using seg1 seg2 s2 s3 by simp
qed

lemma match_hunk_header_sound:
  assumes "match_hunk_header line = Some (g1, g2, g3, g4, r5)"
  shows "\<exists>c1 c2. line = ''@@ -'' @ g1 @ c1 @ g2 @ '' +'' @ g3 @ c2 @ g4 @ '' @@'' @ r5 \<and>
           g1 \<noteq> [] \<and> g3 \<noteq> [] \<and>
           list_all is_digit g1 \<and> list_all is_digit g2 \<and>
           list_all is_digit g3 \<and> list_all is_digit g4 \<and>
           (c1 = [] \<or> c1 = '','') \<and> (c2 = [] \<or> c2 = '','')"
proof -
  from assms obtain r1 where s1: "strip_literal ''@@ -'' line = Some r1"
    by (auto simp: match_hunk_header_def split: option.splits)
  define x1 where "x1 = dropWhile is_digit r1"
  define r2 where "r2 = strip_opt_comma x1"
  define y1 where "y1 = dropWhile is_digit r2"
  from assms s1 have g1: "g1 = takeWhile is_digit r1" "g1 \<noteq> []" and g2: "g2 = takeWhile is_digit r2"
    by (auto simp: match_hunk_header_def Let_def x1_def r2_def split: option.splits if_splits)
  from assms s1 obtain r3 where s2: "strip_literal '' +'' y1 = Some r3"
    by (auto simp: match_hunk_header_def Let_def x1_def r2_def y1_def split: option.splits if_splits)
  define x3 where "x3 = dropWhile is_digit r3"
  define r4 where "r4 = strip_opt_comma x3"
  define y3 where "y3 = dropWhile is_digit r4"
  from assms s1 s2 have g3: "g3 = takeWhile is_digit r3" "g3 \<noteq> []" and g4: "g4 = takeWhile is_digit r4"
    and s3: "strip_literal '' @@'' y3 = Some r5"
    by (auto simp: match_hunk_header_def Let_def x1_def r2_def y1_def x3_def r4_def y3_def
             split: option.splits if_splits)
  obtain c1 where c1: "c1 = [] \<or> c1 = '',''" "x1 = c1 @ r2"
    using strip_opt_comma_cases [of x1] unfolding r2_def by blast
  obtain c2 where c2: "c2 = [] \<or> c2 = '',''" "x3 = c2 @ r4"
    using strip_opt_comma_cases [of x3] unfolding r4_def by blast
  have "line = ''@@ -'' @ r1" using strip_literal_Some [OF s1] .
  moreover have "r1 = g1 @ x1" by (simp add: g1 x1_def)
  moreover have "r2 = g2 @ y1" by (simp add: g2 y1_def)
  moreover have "y1 = '' +'' @ r3" using strip_literal_Some [OF s2] .
  moreover have "r3 = g3 @ x3" by (simp add: g3 x3_def)
  moreover have "r4 = g4 @ y3" by (simp add: g4 y3_def)
  moreover have "y3 = '' @@'' @ r5" using strip_literal_Some [OF s3] .
  ultimately have "line = ''@@ -'' @ g1 @ c1 @ g2 @ '' +'' @ g3 @ c2 @ g4 @ '' @@'' @ r5"
    using c1(2) c2(2) by simp
  moreover have "list_all is_digit g1" "list_all is_digit g2" "list_all is_digit g3" "list_all is_digit g4"
    by (auto simp: g1 g2 g3 g4 list_all_iff dest: set_takeWhileD)
  ultimately show ?thesis using g1(2) g3(2) c1(1) c2(1) by blast
qed

lemma match_hunk_header_language:
  "(match_hunk_header line \<noteq> None) = in_header_language line"
proof
  assume "match_hunk_header line \<noteq> None"
  then obtain g1 g2 g3 g4 r5 where "match_hunk_header line = Some (g1, g2, g3, g4, r5)"
    by (cases "match_hunk_header line") auto
  from match_hunk_header_sound [OF this] show "in_header_language line"
    unfolding in_header_language_def by blast
next
  assume "in_header_language line"
  then show "match_hunk_header line \<noteq> None" by (rule match_hunk_header_complete)
qed

subsection \<open>The header that is written, read again\<close>

lemma is_digit_digit_char: "k < 10 \<Longrightarrow> is_digit (digit_char k)"
  by (simp add: is_digit_def digit_char_def Let_def)

lemma digit_char_value: "k < 10 \<Longrightarrow> of_char (digit_char k) - 48 = k"
  by (simp add: digit_char_def)

lemma str_of_nat_digits: "\<forall>c \<in> set (str_of_nat n). is_digit c"
proof (induction n rule: str_of_nat.induct)
  case (1 n)
  show ?case
  proof (cases "n < 10")
    case True
    then show ?thesis by (simp add: str_of_nat.simps [of n] is_digit_digit_char)
  next
    case False
    with 1 show ?thesis by (simp add: str_of_nat.simps [of n] is_digit_digit_char)
  qed
qed

lemma str_of_nat_not_Nil: "str_of_nat n \<noteq> []"
  by (simp add: str_of_nat.simps [of n])

lemma int_of_digits_snoc: "int_of_digits (ds @ [c]) = 10 * int_of_digits ds + (of_char c - 48)"
  by (simp add: int_of_digits_def)

lemma int_of_digits_str_of_nat: "int_of_digits (str_of_nat n) = n"
proof (induction n rule: str_of_nat.induct)
  case (1 n)
  show ?case
  proof (cases "n < 10")
    case True
    then show ?thesis
      by (simp add: str_of_nat.simps [of n] int_of_digits_def digit_char_value)
  next
    case False
    with 1 have "int_of_digits (str_of_nat (n div 10)) = n div 10" by simp
    with False show ?thesis
      by (simp add: str_of_nat.simps [of n] int_of_digits_snoc digit_char_value)
  qed
qed

lemma strip_literal_append: "strip_literal p (p @ s) = Some s"
  by (induction p) auto

lemma take_digits:
  "\<forall>c \<in> set ds. is_digit c \<Longrightarrow> \<not> is_digit x \<Longrightarrow> takeWhile is_digit (ds @ x # s) = ds"
  by (simp add: takeWhile_append2)

lemma drop_digits:
  "\<forall>c \<in> set ds. is_digit c \<Longrightarrow> \<not> is_digit x \<Longrightarrow> dropWhile is_digit (ds @ x # s) = x # s"
  by (simp add: dropWhile_append2)

lemma not_digit_comma: "\<not> is_digit CHR '',''" "\<not> is_digit CHR '' ''"
  by (simp_all add: is_digit_def)

text \<open>The header that \<open>repair_hunk\<close> builds.\<close>

lemma match_rebuilt_header:
  assumes a: "\<forall>c \<in> set A. is_digit c" "A \<noteq> []"
    and b: "\<forall>c \<in> set B. is_digit c"
    and c: "\<forall>c \<in> set C. is_digit c" "C \<noteq> []"
    and d: "\<forall>c \<in> set D. is_digit c"
  shows "match_hunk_header (''@@ -'' @ A @ '','' @ B @ '' +'' @ C @ '','' @ D @ '' @@'' @ ctx)
           = Some (A, B, C, D, ctx)"
proof -
  have 1: "strip_literal ''@@ -'' (''@@ -'' @ A @ '','' @ B @ '' +'' @ C @ '','' @ D @ '' @@'' @ ctx)
             = Some (A @ '','' @ B @ '' +'' @ C @ '','' @ D @ '' @@'' @ ctx)"
    by (rule strip_literal_append)
  have 2: "takeWhile is_digit (A @ '','' @ B @ '' +'' @ C @ '','' @ D @ '' @@'' @ ctx) = A"
    using take_digits [OF a(1) not_digit_comma(1)] by simp
  have 3: "strip_opt_comma (dropWhile is_digit (A @ '','' @ B @ '' +'' @ C @ '','' @ D @ '' @@'' @ ctx))
             = B @ '' +'' @ C @ '','' @ D @ '' @@'' @ ctx"
    using drop_digits [OF a(1) not_digit_comma(1)] by simp
  have 4: "takeWhile is_digit (B @ '' +'' @ C @ '','' @ D @ '' @@'' @ ctx) = B"
    using take_digits [OF b not_digit_comma(2)] by simp
  have 5: "strip_literal '' +'' (dropWhile is_digit (B @ '' +'' @ C @ '','' @ D @ '' @@'' @ ctx))
             = Some (C @ '','' @ D @ '' @@'' @ ctx)"
    using drop_digits [OF b not_digit_comma(2)] by simp
  have 6: "takeWhile is_digit (C @ '','' @ D @ '' @@'' @ ctx) = C"
    using take_digits [OF c(1) not_digit_comma(1)] by simp
  have 7: "strip_opt_comma (dropWhile is_digit (C @ '','' @ D @ '' @@'' @ ctx)) = D @ '' @@'' @ ctx"
    using drop_digits [OF c(1) not_digit_comma(1)] by simp
  have 8: "takeWhile is_digit (D @ '' @@'' @ ctx) = D"
    using take_digits [OF d not_digit_comma(2)] by simp
  have 9: "strip_literal '' @@'' (dropWhile is_digit (D @ '' @@'' @ ctx)) = Some ctx"
    using drop_digits [OF d not_digit_comma(2)] by simp
  show ?thesis
    unfolding match_hunk_header_def 1 option.case Let_def 2 3 4 5 6 7 8 9
    using a(2) c(2) by simp
qed

subsection \<open>Counts of a hunk with a blank context line\<close>

text \<open>
  For every hunk whose header matches the pattern, the header that \<open>repair_hunk\<close>
  writes declares the counts of the body it has read, and the body it writes is that
  body without the lines that are a single space. Each such line was counted once as
  old and once as new.
\<close>

lemma count_line_shift:
  "count_line (a, b) l = (a + fst (count_line (0, 0) l), b + snd (count_line (0, 0) l))"
  by (cases l) auto

lemma foldl_count_line_shift:
  "foldl count_line (a, b) ls =
     (a + fst (foldl count_line (0, 0) ls), b + snd (foldl count_line (0, 0) ls))"
proof (induction ls arbitrary: a b)
  case Nil
  show ?case by simp
next
  case (Cons l ls)
  obtain a1 b1 where l1: "count_line (0, 0) l = (a1, b1)" by (cases "count_line (0, 0) l")
  then have l2: "count_line (a, b) l = (a + a1, b + b1)"
    using count_line_shift [of a b l] by simp
  show ?case
    using Cons.IH [of "a + a1" "b + b1"] Cons.IH [of a1 b1] l1 l2 by simp
qed

lemma count_lines_Cons:
  "count_lines (l # ls) =
     (fst (count_line (0, 0) l) + fst (count_lines ls), snd (count_line (0, 0) l) + snd (count_lines ls))"
proof -
  obtain a1 b1 where l1: "count_line (0, 0) l = (a1, b1)" by (cases "count_line (0, 0) l")
  then show ?thesis
    using foldl_count_line_shift [of a1 b1 ls] by (simp add: count_lines_def)
qed

lemma count_lines_Nil: "count_lines [] = (0, 0)"
  by (simp add: count_lines_def)

lemma count_lines_dropped:
  "count_lines body =
     (fst (count_lines (filter (\<lambda>l. l \<noteq> '' '') body)) + length (filter (\<lambda>l. l = '' '') body),
      snd (count_lines (filter (\<lambda>l. l \<noteq> '' '') body)) + length (filter (\<lambda>l. l = '' '') body))"
proof (induction body)
  case Nil
  show ?case by (simp add: count_lines_Nil)
next
  case (Cons l body)
  show ?case
  proof (cases "l = '' ''")
    case True
    then have "count_line (0, 0) l = (1, 1)" by simp
    then have "count_lines (l # body) = (1 + fst (count_lines body), 1 + snd (count_lines body))"
      by (simp add: count_lines_Cons [of l body])
    moreover have "filter (\<lambda>l. l \<noteq> '' '') (l # body) = filter (\<lambda>l. l \<noteq> '' '') body"
      and "length (filter (\<lambda>l. l = '' '') (l # body)) = 1 + length (filter (\<lambda>l. l = '' '') body)"
      using True by simp_all
    moreover from Cons have
      "fst (count_lines body) = fst (count_lines (filter (\<lambda>l. l \<noteq> '' '') body))
          + length (filter (\<lambda>l. l = '' '') body)"
      "snd (count_lines body) = snd (count_lines (filter (\<lambda>l. l \<noteq> '' '') body))
          + length (filter (\<lambda>l. l = '' '') body)"
      by (metis fst_conv, metis snd_conv)
    ultimately show ?thesis by simp
  next
    case False
    with Cons show ?thesis
      by (simp add: count_lines_Cons [of l body]
            count_lines_Cons [of l "filter (\<lambda>l. l \<noteq> '' '') body"])
  qed
qed

lemma repair_hunk_counts:
  assumes "match_hunk_header h \<noteq> None"
  shows "\<exists>hdr. repair_hunk (h # body) = hdr # filter (\<lambda>l. l \<noteq> '' '') body \<and>
               declared_counts hdr = Some (count_lines body)"
proof -
  from assms obtain g1 g2 g3 g4 r5 where m: "match_hunk_header h = Some (g1, g2, g3, g4, r5)"
    by (cases "match_hunk_header h") auto
  obtain oc nc where cl: "count_lines body = (oc, nc)" by (cases "count_lines body")
  define hdr where "hdr = ''@@ -'' @ str_of_nat (int_of_digits g1) @ '','' @ str_of_nat oc
     @ '' +'' @ str_of_nat (int_of_digits g3) @ '','' @ str_of_nat nc
     @ '' @@'' @ takeWhile (\<lambda>c. c \<noteq> LF) r5"
  have rh: "repair_hunk (h # body) = hdr # filter (\<lambda>l. l \<noteq> '' '') body"
    using m cl by (simp add: repair_hunk_def hdr_def)
  have "match_hunk_header hdr = Some (str_of_nat (int_of_digits g1), str_of_nat oc,
          str_of_nat (int_of_digits g3), str_of_nat nc, takeWhile (\<lambda>c. c \<noteq> LF) r5)"
    unfolding hdr_def
    by (rule match_rebuilt_header) (simp_all add: str_of_nat_digits str_of_nat_not_Nil)
  then have "declared_counts hdr = Some (oc, nc)"
    by (simp add: declared_counts_def int_of_digits_str_of_nat)
  with rh cl show ?thesis by simp
qed

text \<open>
  Claim C1 at the hunk \<open>patch_blank_context\<close>. The counting loop counts the line that
  is a single space as context, the cleaning loop then drops it: the rebuilt header
  declares 3 old and 3 new lines, the body that is written has 2 of each.
\<close>

theorem repair_patch_counts_blank_context:
  "str_split_lf (repair_patch patch_blank_context) =
     [''@@ -1,3 +1,3 @@'', '' a'', ''-b'', ''+c'', []] \<and>
   declared_counts ''@@ -1,3 +1,3 @@'' = Some (3, 3) \<and>
   count_lines ['' a'', ''-b'', ''+c'', []] = (2, 2)"
  by code_simp

subsection \<open>A second pass\<close>

text \<open>
  Where no line is a single space and the result contains no CRLF, a second pass changes
  nothing: it splits the text into the lines the first pass wrote, finds the same hunks,
  counts the same bodies and writes the same headers.
\<close>

lemma str_replace_crlf_id: "\<not> str_contains [CR, LF] s \<Longrightarrow> str_replace_crlf s = s"
  by (induction s rule: str_replace_crlf.induct) auto

lemma str_split_lf_no_LF: "\<forall>l \<in> set (str_split_lf s). LF \<notin> set l"
  by (induction s) (auto split: list.splits)

lemma str_split_lf_line: "LF \<notin> set l \<Longrightarrow> str_split_lf (l @ LF # s) = l # str_split_lf s"
  by (induction l) (auto simp: str_split_lf_not_Nil split: list.splits)

lemma str_split_lf_single: "LF \<notin> set l \<Longrightarrow> str_split_lf l = [l]"
  by (induction l) (auto split: list.splits)

lemma str_split_join:
  "ls \<noteq> [] \<Longrightarrow> \<forall>l \<in> set ls. LF \<notin> set l \<Longrightarrow> str_split_lf (str_join_lf ls) = ls"
proof (induction ls rule: str_join_lf.induct)
  case 1
  then show ?case by simp
next
  case (2 l)
  then show ?case by (simp add: str_split_lf_single)
next
  case (3 l m ls)
  then show ?case by (simp add: str_split_lf_line)
qed

lemma rebuilt_header_startswith:
  "str_startswith (''@@ -'' @ rest) ''@@''"
  by simp

lemma repair_hunk_header_form:
  assumes m: "match_hunk_header h = Some (g1, g2, g3, g4, r5)"
  shows "repair_hunk (h # body) =
           (''@@ -'' @ str_of_nat (int_of_digits g1) @ '','' @ str_of_nat (fst (count_lines body))
              @ '' +'' @ str_of_nat (int_of_digits g3) @ '','' @ str_of_nat (snd (count_lines body))
              @ '' @@'' @ takeWhile (\<lambda>c. c \<noteq> LF) r5)
           # filter (\<lambda>l. l \<noteq> '' '') body"
  using m by (cases "count_lines body") (simp add: repair_hunk_def)

lemma match_repaired_header:
  "match_hunk_header
     (''@@ -'' @ str_of_nat a @ '','' @ str_of_nat b @ '' +'' @ str_of_nat c @ '','' @ str_of_nat d
        @ '' @@'' @ ctx)
     = Some (str_of_nat a, str_of_nat b, str_of_nat c, str_of_nat d, ctx)"
  by (rule match_rebuilt_header) (simp_all add: str_of_nat_digits str_of_nat_not_Nil)

text \<open>A hunk that \<open>repair_hunk\<close> has written, with no line dropped, is its own repair.\<close>

lemma repair_hunk_fixed:
  assumes m: "match_hunk_header h \<noteq> None" and nb: "'' '' \<notin> set body"
  shows "repair_hunk (hd (repair_hunk (h # body)) # body) = repair_hunk (h # body)"
proof -
  from m obtain g1 g2 g3 g4 r5 where g: "match_hunk_header h = Some (g1, g2, g3, g4, r5)"
    by (cases "match_hunk_header h") auto
  from nb have f: "filter (\<lambda>l. l \<noteq> '' '') body = body"
    by (induction body) auto
  define hdr where "hdr = ''@@ -'' @ str_of_nat (int_of_digits g1) @ '','' @ str_of_nat (fst (count_lines body))
              @ '' +'' @ str_of_nat (int_of_digits g3) @ '','' @ str_of_nat (snd (count_lines body))
              @ '' @@'' @ takeWhile (\<lambda>c. c \<noteq> LF) r5"
  have 1: "repair_hunk (h # body) = hdr # body"
    using repair_hunk_header_form [OF g, of body] f by (simp add: hdr_def)
  have 2: "match_hunk_header hdr = Some (str_of_nat (int_of_digits g1), str_of_nat (fst (count_lines body)),
       str_of_nat (int_of_digits g3), str_of_nat (snd (count_lines body)), takeWhile (\<lambda>c. c \<noteq> LF) r5)"
    unfolding hdr_def by (rule match_repaired_header)
  have "repair_hunk (hdr # body) = hdr # body"
    using repair_hunk_header_form [OF 2, of body] f
    by (simp add: hdr_def int_of_digits_str_of_nat)
  with 1 show ?thesis by simp
qed


lemma repair_hunk_head_startswith:
  assumes m: "match_hunk_header h \<noteq> None"
  shows "str_startswith (hd (repair_hunk (h # body))) ''@@'' \<and>
         match_hunk_header (hd (repair_hunk (h # body))) \<noteq> None"
proof -
  from m obtain g1 g2 g3 g4 r5 where g: "match_hunk_header h = Some (g1, g2, g3, g4, r5)"
    by (cases "match_hunk_header h") auto
  show ?thesis
    using repair_hunk_header_form [OF g, of body]
      match_repaired_header [of "int_of_digits g1" "fst (count_lines body)" "int_of_digits g3"
         "snd (count_lines body)" "takeWhile (\<lambda>c. c \<noteq> LF) r5"]
    by simp
qed

lemma repair_lines_head:
  "ls \<noteq> [] \<Longrightarrow> \<not> in_hunk_body (hd ls) \<Longrightarrow>
     repair_lines ls \<noteq> [] \<and> \<not> in_hunk_body (hd (repair_lines ls))"
proof (cases ls)
  case Nil
  assume "ls \<noteq> []"
  with Nil show ?thesis by simp
next
  case (Cons line rest)
  assume nb: "\<not> in_hunk_body (hd ls)"
  show ?thesis
  proof (cases "\<not> str_startswith line ''@@'' \<or> match_hunk_header line = None")
    case True
    with Cons nb show ?thesis by (simp add: repair_lines_plain)
  next
    case False
    then have sw: "str_startswith line ''@@''" and m: "match_hunk_header line \<noteq> None" by auto
    from repair_hunk_matched [OF m, of "takeWhile in_hunk_body rest"] obtain nh where
      nh: "repair_hunk (line # takeWhile in_hunk_body rest)
            = nh # filter (\<lambda>l. l \<noteq> '' '') (takeWhile in_hunk_body rest)" by blast
    with repair_hunk_head_startswith [OF m, of "takeWhile in_hunk_body rest"]
    have "str_startswith nh ''@@''" by simp
    then have "\<not> in_hunk_body nh" by (simp add: in_hunk_body_def)
    with Cons nh show ?thesis by (simp add: repair_lines_hunk [OF sw m])
  qed
qed

lemma takeWhile_body:
  assumes "\<forall>l \<in> set body. in_hunk_body l" and "R = [] \<or> \<not> in_hunk_body (hd R)"
  shows "takeWhile in_hunk_body (body @ R) = body \<and> dropWhile in_hunk_body (body @ R) = R"
proof (cases R)
  case Nil
  with assms(1) show ?thesis by simp
next
  case (Cons r rs)
  with assms have "\<not> in_hunk_body r" by simp
  with assms(1) Cons show ?thesis by (simp add: takeWhile_append2 dropWhile_append2)
qed

lemma dropWhile_head: "dropWhile P xs = [] \<or> \<not> P (hd (dropWhile P xs))"
  by (induction xs) auto

lemma repair_lines_fixed:
  "'' '' \<notin> set ls \<Longrightarrow> repair_lines (repair_lines ls) = repair_lines ls"
proof (induction ls rule: repair_lines.induct)
  case 1
  show ?case by simp
next
  case (2 line rest)
  from "2.prems" have nbr: "'' '' \<notin> set rest" by simp
  show ?case
  proof (cases "\<not> str_startswith line ''@@'' \<or> match_hunk_header line = None")
    case True
    then have eq: "repair_lines (line # rest) = line # repair_lines rest"
      by (rule repair_lines_plain)
    from True "2.IH"(1,2) nbr have "repair_lines (repair_lines rest) = repair_lines rest"
      by blast
    with eq repair_lines_plain [OF True, of "repair_lines rest"] show ?thesis by simp
  next
    case False
    then have sw: "str_startswith line ''@@''" and m: "match_hunk_header line \<noteq> None" by auto
    define body where "body = takeWhile in_hunk_body rest"
    define R where "R = repair_lines (dropWhile in_hunk_body rest)"
    define hdr where "hdr = hd (repair_hunk (line # body))"
    have inb: "\<forall>l \<in> set body. in_hunk_body l"
      unfolding body_def by (auto dest: set_takeWhileD)
    have nbb: "'' '' \<notin> set body"
      using nbr unfolding body_def by (auto dest: set_takeWhileD)
    then have f: "filter (\<lambda>l. l \<noteq> '' '') body = body" by (induction body) auto
    from repair_hunk_matched [OF m, of body] f have rh: "repair_hunk (line # body) = hdr # body"
      unfolding hdr_def by auto
    have eq: "repair_lines (line # rest) = hdr # body @ R"
      using repair_lines_hunk [OF sw m, of rest] rh by (simp add: body_def R_def)
    have hs: "str_startswith hdr ''@@''" "match_hunk_header hdr \<noteq> None"
      using repair_hunk_head_startswith [OF m, of body] by (simp_all add: hdr_def)
    have Rh: "R = [] \<or> \<not> in_hunk_body (hd R)"
    proof (cases "dropWhile in_hunk_body rest = []")
      case True
      then have "R = []" unfolding R_def by (simp only: repair_lines.simps(1))
      then show ?thesis ..
    next
      case False
      with dropWhile_head [of in_hunk_body rest]
      have "\<not> in_hunk_body (hd (dropWhile in_hunk_body rest))" by blast
      with False repair_lines_head show ?thesis unfolding R_def by blast
    qed
    from takeWhile_body [OF inb Rh] have tw: "takeWhile in_hunk_body (body @ R) = body"
      and dw: "dropWhile in_hunk_body (body @ R) = R" by simp_all
    have "repair_hunk (hdr # body) = repair_hunk (line # body)"
      unfolding hdr_def by (rule repair_hunk_fixed [OF m nbb])
    with rh have fx: "repair_hunk (hdr # body) = hdr # body" by (simp only:)
    have "'' '' \<notin> set (dropWhile in_hunk_body rest)"
      using nbr by (auto dest: set_dropWhileD)
    with sw m "2.IH"(3) have RR: "repair_lines R = R" unfolding R_def by blast
    have "repair_lines (hdr # body @ R) = repair_hunk (hdr # body) @ repair_lines R"
      using repair_lines_hunk [OF hs, of "body @ R"] tw dw by simp
    with fx RR eq show ?thesis by simp
  qed
qed


lemma repair_lines_no_LF:
  "\<forall>l \<in> set ls. LF \<notin> set l \<Longrightarrow> \<forall>l \<in> set (repair_lines ls). LF \<notin> set l"
proof (induction ls rule: repair_lines.induct)
  case 1
  show ?case by simp
next
  case (2 line rest)
  from "2.prems" have r: "\<forall>l \<in> set rest. LF \<notin> set l" and l: "LF \<notin> set line" by simp_all
  show ?case
  proof (cases "\<not> str_startswith line ''@@'' \<or> match_hunk_header line = None")
    case True
    have "\<forall>l \<in> set (repair_lines rest). LF \<notin> set l"
    proof (cases "str_startswith line ''@@''")
      case False
      then show ?thesis using "2.IH"(1) r by simp
    next
      case sw: True
      with True have "match_hunk_header line = None" by simp
      with sw show ?thesis using "2.IH"(2) r by simp
    qed
    with l show ?thesis by (simp add: repair_lines_plain [OF True])
  next
    case False
    then have sw: "str_startswith line ''@@''" and m: "match_hunk_header line \<noteq> None" by auto
    from m obtain g1 g2 g3 g4 r5 where g: "match_hunk_header line = Some (g1, g2, g3, g4, r5)"
      by (cases "match_hunk_header line") auto
    have dig: "LF \<notin> set (str_of_nat n)" for n
      using str_of_nat_digits [of n] by (auto simp: is_digit_def LF_def)
    have ctx: "LF \<notin> set (takeWhile (\<lambda>c. c \<noteq> LF) r5)"
      by (auto dest: set_takeWhileD)
    have hd: "\<forall>l \<in> set (repair_hunk (line # takeWhile in_hunk_body rest)). LF \<notin> set l"
      using repair_hunk_header_form [OF g, of "takeWhile in_hunk_body rest"] dig ctx r
      by (auto simp: LF_def dest: set_takeWhileD)
    have "\<forall>l \<in> set (dropWhile in_hunk_body rest). LF \<notin> set l"
      using r by (auto dest: set_dropWhileD)
    with sw m "2.IH"(3) have "\<forall>l \<in> set (repair_lines (dropWhile in_hunk_body rest)). LF \<notin> set l"
      by blast
    with hd show ?thesis by (auto simp: repair_lines_hunk [OF sw m])
  qed
qed

lemma repair_lines_not_Nil: "ls \<noteq> [] \<Longrightarrow> repair_lines ls \<noteq> []"
proof (cases ls)
  case Nil
  assume "ls \<noteq> []"
  with Nil show ?thesis by simp
next
  case (Cons line rest)
  show ?thesis
  proof (cases "\<not> str_startswith line ''@@'' \<or> match_hunk_header line = None")
    case True
    with Cons show ?thesis by (simp add: repair_lines_plain)
  next
    case False
    then have sw: "str_startswith line ''@@''" and m: "match_hunk_header line \<noteq> None" by auto
    from repair_hunk_matched [OF m, of "takeWhile in_hunk_body rest"] Cons show ?thesis
      by (auto simp: repair_lines_hunk [OF sw m])
  qed
qed

lemma repair_patch_idempotent_if:
  assumes nocr: "\<not> str_contains [CR, LF] (repair_patch d)"
    and nosp: "'' '' \<notin> set (str_split_lf (str_replace_crlf d))"
  shows "repair_patch (repair_patch d) = repair_patch d"
proof -
  define p where "p = (if \<not> str_endswith (str_replace_crlf d) [LF]
                        then str_replace_crlf d @ [LF] else str_replace_crlf d)"
  define out where "out = repair_lines (str_split_lf p)"
  have rd: "repair_patch d = str_join_lf out"
    by (simp add: repair_patch_def p_def out_def Let_def)
  have sp: "'' '' \<notin> set (str_split_lf p)"
    using nosp by (auto simp: p_def str_split_lf_snoc)
  have fixed: "repair_lines out = out"
    unfolding out_def using sp by (rule repair_lines_fixed)
  have "\<forall>l \<in> set out. LF \<notin> set l"
    unfolding out_def by (rule repair_lines_no_LF) (rule str_split_lf_no_LF)
  moreover have "out \<noteq> []"
    unfolding out_def by (rule repair_lines_not_Nil) (rule str_split_lf_not_Nil)
  ultimately have split: "str_split_lf (str_join_lf out) = out" by (simp add: str_split_join)
  have 1: "str_replace_crlf (repair_patch d) = repair_patch d"
    using nocr by (rule str_replace_crlf_id)
  have 2: "str_endswith (repair_patch d) [LF]" by (rule repair_patch_last_LF)
  have "repair_patch (repair_patch d) = str_join_lf (repair_lines (str_split_lf (repair_patch d)))"
    using 1 2 by (simp add: repair_patch_def [of "repair_patch d"] Let_def)
  with rd split fixed show ?thesis by simp
qed

text \<open>
  Claim C2 at the same hunk. The second pass counts the body the first pass wrote, and
  writes a header with other counts than the first.
\<close>

theorem repair_patch_twice_blank_context:
  "repair_patch patch_blank_context =
     ''@@ -1,3 +1,3 @@'' @ [LF] @ '' a'' @ [LF] @ ''-b'' @ [LF] @ ''+c'' @ [LF] \<and>
   repair_patch (repair_patch patch_blank_context) =
     ''@@ -1,2 +1,2 @@'' @ [LF] @ '' a'' @ [LF] @ ''-b'' @ [LF] @ ''+c'' @ [LF] \<and>
   repair_patch (repair_patch patch_blank_context) \<noteq> repair_patch patch_blank_context"
  by code_simp

text \<open>
  The carriage returns break the second pass too: a text that ends in a carriage
  return gets its line feed behind it, and the next pass takes the pair for a CRLF.
\<close>

lemma repair_patch_twice_trailing_cr:
  "repair_patch (''+x'' @ [CR]) = ''+x'' @ [CR, LF] \<and>
   repair_patch (repair_patch (''+x'' @ [CR])) = ''+x'' @ [LF]"
  by code_simp

subsection \<open>Carriage returns\<close>

lemma validate_patch_crlf:
  "str_contains [CR, LF] d \<Longrightarrow>
     issue_crlf \<in> set (issues (validate_patch d)) \<and> \<not> valid (validate_patch d)"
  by (simp add: validate_patch_def Let_def)

text \<open>
  Claim C6 at the text \<open>+x\<close> CR CR LF. It contains CRLF; the single pass of the
  replacement turns CR CR LF into CR LF, and the result of \<open>repair_patch\<close> contains
  CRLF.
\<close>

theorem repair_patch_cr_crlf:
  "str_contains [CR, LF] patch_cr_crlf \<and>
   repair_patch patch_cr_crlf = ''+x'' @ [CR, LF] \<and>
   str_contains [CR, LF] (repair_patch patch_cr_crlf)"
  by code_simp

section \<open>Properties of \<open>get_repo\<close>\<close>

subsection \<open>What a call that returns a path has done\<close>

lemma clone_repo_ok:
  assumes "clone_repo e url p w = (Inr x, w1)"
  shows "slots w1 p \<noteq> None \<and> (\<exists>cs. trace w1 = trace w @ (clone_shallow_argv url p, None) # cs)"
proof (cases "clone_shallow e url")
  case (Clone_ok t)
  with assms show ?thesis
    by (auto simp: clone_repo_def Let_def logged_def put_slot_def)
next
  case (Clone_failed rc err left)
  with assms show ?thesis
    by (simp add: clone_repo_def Let_def)
next
  case (Clone_timeout left)
  show ?thesis
  proof (cases "clone_full e url left")
    case (Clone_ok t)
    with assms Clone_timeout show ?thesis
      by (auto simp: clone_repo_def Let_def logged_def put_slot_def)
  next
    case (Clone_failed rc err left2)
    with assms Clone_timeout show ?thesis by (simp add: clone_repo_def Let_def)
  next
    case (Clone_timeout left2)
    with assms \<open>clone_shallow e url = Clone_timeout left\<close> show ?thesis
      by (simp add: clone_repo_def Let_def)
  qed
qed

lemma get_repo_hit:
  "slots w (repo_path_of cache_dir repo c) \<noteq> None \<Longrightarrow>
     get_repo e cache_dir repo c w = (Inr (repo_path_of cache_dir repo c), w)"
  by (simp add: get_repo_def Let_def)


lemma checkout_commit_ok:
  assumes "checkout_commit e p c w = (Inr x, w1)"
  shows "slots w1 p \<noteq> None \<and> (\<exists>cs. trace w1 = trace w @ cs)"
proof (cases "slots w p")
  case None
  with assms show ?thesis by (simp add: checkout_commit_def)
next
  case (Some t)
  obtain rc1 err1 t1 where a: "checkout e t c = (rc1, err1, t1)"
    by (cases "checkout e t c")
  obtain rc2 err2 t2 where b: "fetch_deep e t1 = (rc2, err2, t2)"
    by (cases "fetch_deep e t1")
  obtain rc3 err3 t3 where d: "checkout e t2 c = (rc3, err3, t3)"
    by (cases "checkout e t2 c")
  show ?thesis
  proof (cases "rc1 = 0")
    case True
    with assms Some a show ?thesis
      by (auto simp: checkout_commit_def Let_def logged_def put_slot_def)
  next
    case False
    with assms Some a b d have "rc2 = 0 \<and> rc3 = 0"
      by (auto simp: checkout_commit_def Let_def split: if_splits)
    with False assms Some a b d show ?thesis
      by (auto simp: checkout_commit_def Let_def logged_def put_slot_def)
  qed
qed


lemma get_repo_miss:
  assumes miss: "slots w (repo_path_of cache_dir repo c) = None"
    and ok: "get_repo e cache_dir repo c w = (Inr p, w1)"
  shows "\<exists>fs wc. clone_repo e (repo_url_of repo)
                    (repo_path_of cache_dir repo c) (w\<lparr>slots := fs\<rparr>) = (Inr (), wc) \<and>
                 checkout_commit e (repo_path_of cache_dir repo c) c wc = (Inr (), w1) \<and>
                 p = repo_path_of cache_dir repo c"
proof (cases "makedirs e (slots w) (path_dirname (repo_path_of cache_dir repo c))")
  case None
  with miss ok show ?thesis by (simp add: get_repo_def Let_def)
next
  case (Some fs)
  obtain r1 wc where c1: "clone_repo e (repo_url_of repo)
                    (repo_path_of cache_dir repo c) (w\<lparr>slots := fs\<rparr>) = (r1, wc)"
    by (cases "clone_repo e (repo_url_of repo)
                    (repo_path_of cache_dir repo c) (w\<lparr>slots := fs\<rparr>)")
  obtain r2 w2 where c2: "checkout_commit e (repo_path_of cache_dir repo c) c wc = (r2, w2)"
    by (cases "checkout_commit e (repo_path_of cache_dir repo c) c wc")
  show ?thesis
  proof (cases r1)
    case (Inl err)
    with miss ok Some c1 show ?thesis by (simp add: get_repo_def Let_def)
  next
    case (Inr u)
    show ?thesis
    proof (cases r2)
      case (Inl err)
      with miss ok Some c1 c2 Inr show ?thesis by (simp add: get_repo_def Let_def)
    next
      case (Inr v)
      with miss ok Some c1 c2 \<open>r1 = Inr u\<close> show ?thesis by (auto simp: get_repo_def Let_def)
    qed
  qed
qed

lemma get_repo_ok:
  assumes "get_repo e cache_dir repo c w = (Inr p, w1)"
  shows "p = repo_path_of cache_dir repo c \<and> slots w1 p \<noteq> None"
proof (cases "slots w (repo_path_of cache_dir repo c) = None")
  case False
  with assms get_repo_hit [of w cache_dir repo c e] show ?thesis by auto
next
  case True
  from get_repo_miss [OF True assms] obtain wc where
    c2: "checkout_commit e (repo_path_of cache_dir repo c) c wc = (Inr (), w1)"
    and pe: "p = repo_path_of cache_dir repo c"
    by blast
  from checkout_commit_ok [OF c2] pe show ?thesis by simp
qed

lemma get_repo_miss_trace:
  assumes "get_repo e cache_dir repo c w = (Inr p, w1)"
    and "slots w p = None"
  shows "\<exists>cs. trace w1 = trace w @
           (clone_shallow_argv (repo_url_of repo) p, None) # cs"
proof -
  from get_repo_ok [OF assms(1)] have pe: "p = repo_path_of cache_dir repo c" by simp
  with assms(2) have miss: "slots w (repo_path_of cache_dir repo c) = None" by simp
  from get_repo_miss [OF miss assms(1)] obtain fs wc where
    c1: "clone_repo e (repo_url_of repo) (repo_path_of cache_dir repo c)
           (w\<lparr>slots := fs\<rparr>) = (Inr (), wc)"
    and c2: "checkout_commit e (repo_path_of cache_dir repo c) c wc = (Inr (), w1)"
    by blast
  from clone_repo_ok [OF c1] pe obtain cs where
    t1: "trace wc = trace w @ (clone_shallow_argv (repo_url_of repo) p, None) # cs"
    by auto
  from checkout_commit_ok [OF c2] obtain ds where t2: "trace w1 = trace wc @ ds" by auto
  from t1 t2 show ?thesis by simp
qed

lemma repo_path_of_prefix:
  "take 8 c1 = take 8 c2 \<Longrightarrow> repo_path_of cache_dir repo c1 = repo_path_of cache_dir repo c2"
  by (simp add: repo_path_of_def)

subsection \<open>The cache\<close>

text \<open>
  Claim C8. The path of a slot is \<open>repo_path_of cache_dir repo c\<close>, a function of the
  cache directory, the repository name and the commit hash. When a call of \<open>get_repo\<close>
  returns a path, the next call with the same pair, in the world the first call left
  and whatever the environment then answers, returns the same path, runs no command
  and changes nothing: it finds the directory and returns. The first call started with
  the shallow clone when the directory was missing; when it was there, the first call
  changed nothing either.
\<close>

theorem get_repo_twice:
  assumes "get_repo e1 cache_dir repo c w = (Inr p, w1)"
  shows "p = repo_path_of cache_dir repo c \<and>
         get_repo e2 cache_dir repo c w1 = (Inr p, w1) \<and>
         (if slots w p = None
          then \<exists>cs. trace w1 = trace w @ (clone_shallow_argv (repo_url_of repo) p, None) # cs
          else w1 = w)"
proof -
  from get_repo_ok [OF assms] have pe: "p = repo_path_of cache_dir repo c"
    and ex: "slots w1 p \<noteq> None" by blast+
  from ex pe have second: "get_repo e2 cache_dir repo c w1 = (Inr p, w1)"
    using get_repo_hit [of w1 cache_dir repo c e2] by simp
  have miss: "\<exists>cs. trace w1 = trace w @ (clone_shallow_argv (repo_url_of repo) p, None) # cs"
    if "slots w p = None"
    using get_repo_miss_trace [OF assms that] .
  have hit: "w1 = w" if "slots w p \<noteq> None"
    using assms pe that get_repo_hit [of w cache_dir repo c e1] by simp
  from pe second miss hit show ?thesis by (cases "slots w p = None") simp_all
qed

theorem get_repo_twice_witness:
  "fst first_call = Inr demo_path \<and>
   get_repo demo_env ''/cache'' ''octocat/Hello-World'' demo_commit (snd first_call)
     = (Inr demo_path, snd first_call)"
proof -
  have f: "fst first_call = Inr demo_path" by code_simp
  then have h: "get_repo demo_env ''/cache'' ''octocat/Hello-World'' demo_commit empty_world
                  = (Inr demo_path, snd first_call)"
    by (simp add: first_call_def prod_eq_iff)
  from get_repo_twice [OF h, of demo_env] f show ?thesis by simp
qed

text \<open>
  Claim C10. The commit hash enters the path by its first eight characters only. For
  two hashes that agree on them the paths are equal; after a call for the first hash
  has returned, a call for the second returns the same path, runs no command (no clone,
  no checkout of the second hash) and leaves the world as it was: the slot still holds
  the working tree the first call checked out.
\<close>

theorem get_repo_prefix_collision:
  assumes "take 8 c1 = take 8 c2"
    and "get_repo e1 cache_dir repo c1 w = (Inr p, w1)"
  shows "repo_path_of cache_dir repo c2 = p \<and> get_repo e2 cache_dir repo c2 w1 = (Inr p, w1)"
proof -
  from get_repo_ok [OF assms(2)] have pe: "p = repo_path_of cache_dir repo c1"
    and ex: "slots w1 p \<noteq> None" by blast+
  from repo_path_of_prefix [OF assms(1)] pe have p2: "repo_path_of cache_dir repo c2 = p" by simp
  with ex show ?thesis using get_repo_hit [of w1 cache_dir repo c2 e2] by simp
qed

theorem get_repo_prefix_collision_witness:
  "demo_commit \<noteq> demo_commit2 \<and> take 8 demo_commit = take 8 demo_commit2 \<and>
   fst first_call = Inr demo_path \<and>
   slots (snd first_call) demo_path = Some \<lparr>revision = demo_commit, changes = []\<rparr> \<and>
   get_repo demo_env ''/cache'' ''octocat/Hello-World'' demo_commit2 (snd first_call)
     = (Inr demo_path, snd first_call)"
proof -
  have ne: "demo_commit \<noteq> demo_commit2" by code_simp
  have t: "take 8 demo_commit = take 8 demo_commit2" by code_simp
  have f: "fst first_call = Inr demo_path" by code_simp
  have s: "slots (snd first_call) demo_path = Some \<lparr>revision = demo_commit, changes = []\<rparr>"
    by code_simp
  from f have h: "get_repo demo_env ''/cache'' ''octocat/Hello-World'' demo_commit empty_world
                  = (Inr demo_path, snd first_call)"
    by (simp add: first_call_def prod_eq_iff)
  from get_repo_prefix_collision [OF t h, of demo_env] ne t f s show ?thesis by simp
qed

subsection \<open>A checkout that fails\<close>

text \<open>
  Claim C4 in \<open>demo_env\<close>, for a revision the repository does not have. The clone
  succeeds, the checkout fails, the fetch succeeds, the second checkout fails: the call
  raises the \<open>CalledProcessError\<close> of the checkout, and the directory the clone made
  stays at the path, at the tip of the default branch. The next call with the same
  pair finds it, runs nothing and returns the path.
\<close>

theorem get_repo_failed_checkout:
  "fst failed_call =
     Inl (CalledProcessError (checkout_argv known_missing) 128 ''fatal: reference is not a tree'') \<and>
   slots (snd failed_call) ''/cache/octocat_Hello-World/deadbeef''
     = Some \<lparr>revision = ''HEAD'', changes = []\<rparr> \<and>
   fst retry_call = Inr ''/cache/octocat_Hello-World/deadbeef'' \<and>
   trace (snd retry_call) = trace (snd failed_call)"
  by code_simp

section \<open>Properties of \<open>apply_patch\<close>\<close>

lemma slot_update_same: "m p = Some t \<Longrightarrow> (m(p \<mapsto> t2) = m) = (t2 = t)"
proof
  assume a: "m p = Some t" and b: "m(p \<mapsto> t2) = m"
  from b have "(m(p \<mapsto> t2)) p = m p" by simp
  with a show "t2 = t" by simp
next
  assume "m p = Some t" and "t2 = t"
  then show "m(p \<mapsto> t2) = m" by (simp add: fun_upd_idem)
qed

lemma apply_patch_try_check_failed:
  assumes "slots w p = Some t" and "apply_check e t patch = (rc, err)" and "rc \<noteq> 0"
  shows "apply_patch_try e p f patch w =
           (Inr \<lparr>success = False, error = Some err\<rparr>, logged (apply_check_argv f, Some p) w)"
  using assms by (simp add: apply_patch_try_def Let_def)

lemma apply_patch_try_check_passed:
  assumes "slots w p = Some t" and "apply_check e t patch = (0, err)"
    and "apply_write e t patch = (rc2, err2, t2)"
  shows "apply_patch_try e p f patch w =
           (Inr \<lparr>success = (rc2 = 0), error = (if rc2 = 0 then None else Some err2)\<rparr>,
            put_slot p (Some t2)
              (logged (apply_argv f, Some p) (logged (apply_check_argv f, Some p) w)))"
  using assms by (simp add: apply_patch_try_def Let_def)

lemma apply_patch_removes_tmp:
  "tmpfiles (snd (apply_patch e p patch w)) (mkstemp e (tmpfiles w)) = None"
  by (simp add: apply_patch_def Let_def split: prod.splits)

text \<open>
  Claim C3, as stated, fails. In \<open>demo_env\<close> the patch \<open>patch_half\<close> passes the dry run,
  the real \<open>git apply\<close> writes the first file and exits with status 1 at the second:
  \<open>apply_patch\<close> returns \<open>success = False\<close>, and the working tree is not what it was.
\<close>

theorem apply_patch_half_counterexample:
  "slots demo_world demo_path = Some \<lparr>revision = demo_commit, changes = []\<rparr> \<and>
   fst half_applied = Inr \<lparr>success = False, error = Some ''error: unable to write file locked''\<rparr> \<and>
   slots (snd half_applied) demo_path = Some \<lparr>revision = demo_commit, changes = [''f'']\<rparr>"
  by code_simp

text \<open>
  Claim C3, amended. When \<open>apply_patch\<close> returns a result with \<open>success = False\<close>,
  one of two things has happened. Either the dry run exited with a non-zero status:
  then the only command run is the dry run, the working tree is as before, and
  \<open>error\<close> is the diagnostic of the dry run. Or the dry run passed and the real
  \<open>git apply\<close> exited with a non-zero status: then \<open>error\<close> is its diagnostic and
  the working tree is what that command left, nothing being rolled back. So the tree
  is as before exactly when the dry run failed or the failed \<open>git apply\<close> had written
  nothing.
\<close>

theorem apply_patch_failure:
  assumes "slots w p = Some t"
    and "apply_patch e p patch w = (Inr r, w')"
    and "\<not> success r"
  shows "(if fst (apply_check e t patch) \<noteq> 0
          then slots w' = slots w \<and>
               error r = Some (snd (apply_check e t patch)) \<and>
               trace w' = trace w @ [(apply_check_argv (mkstemp e (tmpfiles w)), Some p)]
          else fst (apply_write e t patch) \<noteq> 0 \<and>
               slots w' = (slots w)(p \<mapsto> snd (snd (apply_write e t patch))) \<and>
               error r = Some (fst (snd (apply_write e t patch))) \<and>
               trace w' = trace w @ [(apply_check_argv (mkstemp e (tmpfiles w)), Some p),
                                      (apply_argv (mkstemp e (tmpfiles w)), Some p)]) \<and>
         (slots w' = slots w) =
           (fst (apply_check e t patch) \<noteq> 0 \<or> snd (snd (apply_write e t patch)) = t)"
proof -
  obtain rc err where ck: "apply_check e t patch = (rc, err)" by (cases "apply_check e t patch")
  obtain rc2 err2 t2 where ap: "apply_write e t patch = (rc2, err2, t2)"
    by (cases "apply_write e t patch")
  define f where "f = mkstemp e (tmpfiles w)"
  define w0 where "w0 = w\<lparr>tmpfiles := (tmpfiles w)(f \<mapsto> patch)\<rparr>"
  have s0: "slots w0 p = Some t" "slots w0 = slots w" "trace w0 = trace w"
    using assms(1) by (simp_all add: w0_def)
  have unfold: "apply_patch e p patch w =
      (fst (apply_patch_try e p f patch w0),
       (snd (apply_patch_try e p f patch w0))\<lparr>tmpfiles :=
          (tmpfiles (snd (apply_patch_try e p f patch w0)))(f := None)\<rparr>)"
    by (simp add: apply_patch_def Let_def f_def w0_def split: prod.splits)
  show ?thesis
  proof (cases "rc = 0")
    case False
    from apply_patch_try_check_failed [OF s0(1) ck False, of f]
    have "apply_patch_try e p f patch w0 =
           (Inr \<lparr>success = False, error = Some err\<rparr>, logged (apply_check_argv f, Some p) w0)" .
    with unfold assms(2) have "r = \<lparr>success = False, error = Some err\<rparr>"
      and "w' = (logged (apply_check_argv f, Some p) w0)\<lparr>tmpfiles :=
          (tmpfiles (logged (apply_check_argv f, Some p) w0))(f := None)\<rparr>"
      by simp_all
    with False ck s0 show ?thesis by (simp add: logged_def f_def)
  next
    case True
    with ck have ck0: "apply_check e t patch = (0, err)" by simp
    from apply_patch_try_check_passed [OF s0(1) ck0 ap, of f]
    have tr: "apply_patch_try e p f patch w0 =
           (Inr \<lparr>success = (rc2 = 0), error = (if rc2 = 0 then None else Some err2)\<rparr>,
            put_slot p (Some t2)
              (logged (apply_argv f, Some p) (logged (apply_check_argv f, Some p) w0)))" .
    with unfold assms(2) have r: "r = \<lparr>success = (rc2 = 0), error = (if rc2 = 0 then None else Some err2)\<rparr>"
      and w': "w' = (put_slot p (Some t2)
              (logged (apply_argv f, Some p) (logged (apply_check_argv f, Some p) w0)))\<lparr>tmpfiles :=
          (tmpfiles (put_slot p (Some t2)
              (logged (apply_argv f, Some p) (logged (apply_check_argv f, Some p) w0))))(f := None)\<rparr>"
      by simp_all
    from r assms(3) have nz: "rc2 \<noteq> 0" by simp
    have sl: "slots w' = (slots w)(p \<mapsto> t2)" and tc: "trace w' = trace w @
        [(apply_check_argv f, Some p), (apply_argv f, Some p)]"
      using w' s0 by (simp_all add: put_slot_def logged_def)
    from sl assms(1) slot_update_same [of "slots w" p t t2] have "(slots w' = slots w) = (t2 = t)" by simp
    with True ck ap nz r sl tc show ?thesis by (simp add: f_def)
  qed
qed

theorem apply_patch_failure_witness:
  "fst (apply_patch demo_env demo_path [] demo_world)
     = Inr \<lparr>success = False, error = Some ''error: No valid patches in input''\<rparr> \<and>
   slots (snd (apply_patch demo_env demo_path [] demo_world)) = slots demo_world \<and>
   trace (snd (apply_patch demo_env demo_path [] demo_world))
     = [(apply_check_argv ''/tmp/tmp0.patch'', Some demo_path)]"
proof -
  have a: "slots demo_world demo_path = Some \<lparr>revision = demo_commit, changes = []\<rparr>"
    by (simp add: demo_world_def)
  have f: "fst (apply_patch demo_env demo_path [] demo_world)
     = Inr \<lparr>success = False, error = Some ''error: No valid patches in input''\<rparr>"
    by code_simp
  then have b: "apply_patch demo_env demo_path [] demo_world
     = (Inr \<lparr>success = False, error = Some ''error: No valid patches in input''\<rparr>,
        snd (apply_patch demo_env demo_path [] demo_world))"
    by (simp add: prod_eq_iff)
  have c: "\<not> success \<lparr>success = False, error = Some ''error: No valid patches in input''\<rparr>"
    by simp
  have e: "trace demo_world = []" "mkstemp demo_env (tmpfiles demo_world) = ''/tmp/tmp0.patch''"
    "fst (apply_check demo_env \<lparr>revision = demo_commit, changes = []\<rparr> []) \<noteq> 0"
    by (simp_all add: demo_world_def demo_env_def)
  from apply_patch_failure [OF a b c] e f show ?thesis by simp
qed

section \<open>Properties of \<open>reset_repo\<close>\<close>

text \<open>
  Claim C9. On an existing slot \<open>reset_repo\<close> runs \<open>git reset --hard HEAD\<close> first and
  \<open>git clean -fdx\<close> second, the second on the tree the first has left. It returns
  normally exactly when both exit with status 0. When the first fails, its
  \<open>CalledProcessError\<close> is raised and the second is not run; when the second fails,
  its \<open>CalledProcessError\<close> is raised.
\<close>

theorem reset_repo_two_steps:
  assumes "slots w p = Some t"
    and "reset_hard e t = (rc1, err1, t1)"
    and "clean_fdx e t1 = (rc2, err2, t2)"
    and "reset_repo e p w = (res, w')"
  shows "(res = Inr ()) = (rc1 = 0 \<and> rc2 = 0) \<and>
         (if rc1 \<noteq> 0
          then res = Inl (CalledProcessError reset_argv rc1 err1) \<and>
               trace w' = trace w @ [(reset_argv, Some p)] \<and>
               slots w' = (slots w)(p \<mapsto> t1)
          else trace w' = trace w @ [(reset_argv, Some p), (clean_argv, Some p)] \<and>
               slots w' = (slots w)(p \<mapsto> t2) \<and>
               (if rc2 \<noteq> 0 then res = Inl (CalledProcessError clean_argv rc2 err2)
                else res = Inr ()))"
proof (cases "rc1 = 0")
  case False
  with assms show ?thesis
    by (auto simp: reset_repo_def Let_def logged_def put_slot_def)
next
  case True
  show ?thesis
  proof (cases "rc2 = 0")
    case False
    with True assms show ?thesis
      by (auto simp: reset_repo_def Let_def logged_def put_slot_def)
  next
    case rc2: True
    with True assms show ?thesis
      by (auto simp: reset_repo_def Let_def logged_def put_slot_def)
  qed
qed

theorem reset_repo_two_steps_witness:
  "fst (reset_repo demo_env demo_path demo_world) = Inr () \<and>
   trace (snd (reset_repo demo_env demo_path demo_world))
     = [(reset_argv, Some demo_path), (clean_argv, Some demo_path)]"
proof -
  have a: "slots demo_world demo_path = Some \<lparr>revision = demo_commit, changes = []\<rparr>"
    by (simp add: demo_world_def)
  have b: "reset_hard demo_env \<lparr>revision = demo_commit, changes = []\<rparr>
             = (0, [], \<lparr>revision = demo_commit, changes = []\<rparr>)"
    by (simp add: demo_env_def)
  have c: "clean_fdx demo_env \<lparr>revision = demo_commit, changes = []\<rparr>
             = (0, [], \<lparr>revision = demo_commit, changes = []\<rparr>)"
    by (simp add: demo_env_def)
  have d: "reset_repo demo_env demo_path demo_world
             = (fst (reset_repo demo_env demo_path demo_world),
                snd (reset_repo demo_env demo_path demo_world))"
    by simp
  have e: "trace demo_world = []" by (simp add: demo_world_def)
  from reset_repo_two_steps [OF a b c d] e show ?thesis by simp
qed

end
